theory Spec2Isabelle
  imports Complex_Main "HOL-Library.Word"
begin

unbundle bit_operations_syntax

section \<open>Reactivity: data model (effect.ts, dep.ts)\<close>

text \<open>
  Effects and Deps are heap objects of the program. They are addressed here by
  natural numbers: \<open>effects s e\<close> is the effect object with address \<open>e\<close> and
  \<open>depStore s d\<close> the Dep object with address \<open>d\<close>.

  A Dep is a JavaScript \<open>Set\<close> of effects carrying the two marker words \<open>w\<close> and
  \<open>n\<close>. The set is kept as the list of its members in insertion order (the order in which
  a spread \<open>[...dep]\<close> enumerates them). The markers are only ever combined with the
  bitwise operators, which work on 32-bit integers.
\<close>

record dep =
  members :: "nat list"
  w :: "32 word"
  n :: "32 word"

text \<open>
  The fields of \<open>ReactiveEffect\<close>. \<open>fn\<close>, \<open>scheduler\<close> and \<open>onStop\<close> are references to
  routines of the host program (see \<open>exec\<close> below); \<open>computed\<close> tells whether the
  back-reference \<open>effect.computed\<close> is set. \<open>lastShouldTrack\<close> is the local variable of
  that name in the activation of \<open>run()\<close> that is in progress for the effect: \<open>run()\<close>
  refuses to start a second activation of an effect that is already on the stack, so
  one slot per effect is enough.
\<close>

record effect =
  active :: bool
  deps :: "nat list"
  parent :: "nat option"
  computed :: bool
  allowRecurse :: bool
  deferStop :: bool
  fn :: nat
  scheduler :: "nat option"
  onStop :: "nat option"
  lastShouldTrack :: bool

text \<open>
  Property keys are strings or symbols. \<open>ITERATE_KEY\<close> and \<open>MAP_KEY_ITERATE_KEY\<close> are
  two symbols created by the module.
\<close>

datatype key = KStr string | KSym nat

definition ITERATE_KEY :: key where
  "ITERATE_KEY = KSym 0"

definition MAP_KEY_ITERATE_KEY :: key where
  "MAP_KEY_ITERATE_KEY = KSym 1"

text \<open>
  A target is an object of the host program; \<open>trigger\<close> only asks whether it is an array
  (\<open>isArray\<close>) or a \<open>Map\<close> (\<open>isMap\<close>).
\<close>

datatype target = ArrayTarget nat | MapTarget nat | OtherTarget nat

fun isArray :: "target \<Rightarrow> bool" where
  "isArray (ArrayTarget _) = True"
| "isArray _ = False"

fun isMap :: "target \<Rightarrow> bool" where
  "isMap (MapTarget _) = True"
| "isMap _ = False"

text \<open>
  What the module calls in the host program: the \<open>fn\<close> of an effect, its \<open>scheduler\<close>
  and its \<open>onStop\<close> hook. The calls are recorded in \<open>trace\<close>, in order.
\<close>

datatype event = FnCalled nat | SchedulerCalled nat | OnStopCalled nat

text \<open>
  The module-level variables of effect.ts. \<open>targetMap\<close> sends a target to its
  \<open>KeyToDepMap\<close>, kept as an association list in insertion order (the order in which
  \<open>forEach\<close> and \<open>values()\<close> enumerate it). \<open>nextDep\<close> is the next free Dep address.
\<close>

record state =
  effects :: "nat \<Rightarrow> effect"
  depStore :: "nat \<Rightarrow> dep"
  nextDep :: nat
  targetMap :: "target \<Rightarrow> (key \<times> nat) list option"
  activeEffect :: "nat option"
  shouldTrack :: bool
  trackStack :: "bool list"
  effectTrackDepth :: nat
  trackOpBit :: "32 word"
  trace :: "event list"

text \<open>
  A freshly constructed effect (the field initialisers and the constructor of
  \<open>ReactiveEffect\<close>), and the state of the module when it has just been loaded. Every
  address holds a fresh object until the program stores something else there.
\<close>

definition new_effect :: "nat \<Rightarrow> nat option \<Rightarrow> effect" where
  "new_effect f sch =
     \<lparr>active = True, deps = [], parent = None, computed = False, allowRecurse = False,
      deferStop = False, fn = f, scheduler = sch, onStop = None, lastShouldTrack = True\<rparr>"

definition createDep :: "nat list \<Rightarrow> dep" where
  "createDep es = \<lparr>members = rev (remdups (rev es)), w = 0, n = 0\<rparr>"

definition initial_state :: state where
  "initial_state =
     \<lparr>effects = (\<lambda>e. new_effect e None), depStore = (\<lambda>d. createDep []), nextDep = 0,
      targetMap = (\<lambda>t. None), activeEffect = None, shouldTrack = True, trackStack = [],
      effectTrackDepth = 0, trackOpBit = 1, trace = []\<rparr>"

definition maxMarkerBits :: nat where
  "maxMarkerBits = 30"


subsection \<open>dep.ts\<close>

text \<open>\<open>Set.prototype.add\<close> and \<open>delete\<close> on the member list.\<close>

definition set_add :: "nat \<Rightarrow> nat list \<Rightarrow> nat list" where
  "set_add e xs = (if e \<in> set xs then xs else xs @ [e])"

definition set_delete :: "nat \<Rightarrow> nat list \<Rightarrow> nat list" where
  "set_delete e xs = removeAll e xs"

text \<open>
  \<open>(dep.w & trackOpBit) > 0\<close>: the result of \<open>&\<close> is a signed 32-bit integer.
\<close>

definition wasTracked :: "32 word \<Rightarrow> dep \<Rightarrow> bool" where
  "wasTracked tb d = (0 < sint (w d AND tb))"

definition newTracked :: "32 word \<Rightarrow> dep \<Rightarrow> bool" where
  "newTracked tb d = (0 < sint (n d AND tb))"

fun initDepMarkers_loop :: "32 word \<Rightarrow> nat list \<Rightarrow> (nat \<Rightarrow> dep) \<Rightarrow> (nat \<Rightarrow> dep)" where
  "initDepMarkers_loop tb [] st = st"
| "initDepMarkers_loop tb (d # ds) st =
     initDepMarkers_loop tb ds (st(d := (st d)\<lparr>w := w (st d) OR tb\<rparr>))"

definition initDepMarkers :: "nat \<Rightarrow> state \<Rightarrow> state" where
  "initDepMarkers e s =
     s\<lparr>depStore := initDepMarkers_loop (trackOpBit s) (deps (effects s e)) (depStore s)\<rparr>"

text \<open>
  The loop of \<open>finalizeDepMarkers\<close>. The source compacts \<open>deps\<close> in place
  (\<open>deps[ptr++] = dep\<close>, then \<open>deps.length = ptr\<close>); \<open>ptr\<close> never passes \<open>i\<close>, so the
  entries still to be read are not overwritten and the result is the list \<open>kept\<close> of
  the entries that were written.
\<close>

fun finalizeDepMarkers_loop ::
  "32 word \<Rightarrow> nat \<Rightarrow> nat list \<Rightarrow> nat list \<Rightarrow> (nat \<Rightarrow> dep) \<Rightarrow> nat list \<times> (nat \<Rightarrow> dep)" where
  "finalizeDepMarkers_loop tb e [] kept st = (kept, st)"
| "finalizeDepMarkers_loop tb e (d # ds) kept st =
     (let dp = st d;
          drop = wasTracked tb dp \<and> \<not> newTracked tb dp;
          dp1 = (if drop then dp\<lparr>members := set_delete e (members dp)\<rparr> else dp);
          dp2 = dp1\<lparr>w := w dp1 AND NOT tb, n := n dp1 AND NOT tb\<rparr>
      in finalizeDepMarkers_loop tb e ds (if drop then kept else kept @ [d]) (st(d := dp2)))"

definition finalizeDepMarkers :: "nat \<Rightarrow> state \<Rightarrow> state" where
  "finalizeDepMarkers e s =
     (let (kept, st) =
            finalizeDepMarkers_loop (trackOpBit s) e (deps (effects s e)) [] (depStore s)
      in s\<lparr>depStore := st, effects := (effects s)(e := (effects s e)\<lparr>deps := kept\<rparr>)\<rparr>)"

subsection \<open>effect.ts: cleanupEffect, track, trackEffects\<close>

fun cleanupEffect_loop :: "nat \<Rightarrow> nat list \<Rightarrow> (nat \<Rightarrow> dep) \<Rightarrow> (nat \<Rightarrow> dep)" where
  "cleanupEffect_loop e [] st = st"
| "cleanupEffect_loop e (d # ds) st =
     cleanupEffect_loop e ds (st(d := (st d)\<lparr>members := set_delete e (members (st d))\<rparr>))"

definition cleanupEffect :: "nat \<Rightarrow> state \<Rightarrow> state" where
  "cleanupEffect e s =
     s\<lparr>depStore := cleanupEffect_loop e (deps (effects s e)) (depStore s),
       effects := (effects s)(e := (effects s e)\<lparr>deps := []\<rparr>)\<rparr>"

text \<open>
  \<open>trackEffects\<close>, in the production build (the \<open>onTrack\<close> hook is development only).
  \<open>e\<close> is \<open>activeEffect!\<close>: \<open>track\<close> calls it only when there is an active effect.
\<close>

definition trackEffects :: "nat \<Rightarrow> nat \<Rightarrow> state \<Rightarrow> state" where
  "trackEffects e d s =
     (let dp = depStore s d;
          marker = (effectTrackDepth s \<le> maxMarkerBits);
          fresh = (marker \<and> \<not> newTracked (trackOpBit s) dp);
          dp1 = (if fresh then dp\<lparr>n := n dp OR trackOpBit s\<rparr> else dp);
          shouldTrack' =
            (if marker then fresh \<and> \<not> wasTracked (trackOpBit s) dp1
             else e \<notin> set (members dp))
      in if shouldTrack'
         then s\<lparr>depStore := (depStore s)(d := dp1\<lparr>members := set_add e (members dp1)\<rparr>),
                effects := (effects s)(e := (effects s e)\<lparr>deps := deps (effects s e) @ [d]\<rparr>)\<rparr>
         else s\<lparr>depStore := (depStore s)(d := dp1)\<rparr>)"

text \<open>
  \<open>track\<close>: the \<open>KeyToDepMap\<close> of the target and the Dep of the key are created when
  missing. A new Dep takes the next free address.
\<close>

definition track :: "target \<Rightarrow> key \<Rightarrow> state \<Rightarrow> state" where
  "track t k s =
     (case activeEffect s of
        None \<Rightarrow> s
      | Some e \<Rightarrow>
          if \<not> shouldTrack s then s
          else
            let depsMap = (case targetMap s t of None \<Rightarrow> [] | Some m \<Rightarrow> m) in
            (case map_of depsMap k of
               Some d \<Rightarrow> trackEffects e d (s\<lparr>targetMap := (targetMap s)(t \<mapsto> depsMap)\<rparr>)
             | None \<Rightarrow>
                 let d = nextDep s in
                 trackEffects e d
                   (s\<lparr>targetMap := (targetMap s)(t \<mapsto> depsMap @ [(k, d)]),
                      depStore := (depStore s)(d := createDep []),
                      nextDep := Suc d\<rparr>)))"

subsection \<open>effect.ts: the two halves of run(), and stop()\<close>

text \<open>
  The walk up the \<open>parent\<close> pointers at the start of \<open>run()\<close>: does \<open>e\<close> occur on the
  chain that starts at \<open>p\<close>? The source loops until it meets \<open>undefined\<close>, so on a cyclic
  chain that does not hold \<open>e\<close> it does not return (\<open>None\<close>).
\<close>

partial_function (option) on_parent_chain :: "(nat \<Rightarrow> effect) \<Rightarrow> nat option \<Rightarrow> nat \<Rightarrow> bool option" where
  "on_parent_chain es p e =
     (case p of
        None \<Rightarrow> Some False
      | Some q \<Rightarrow> if q = e then Some True else on_parent_chain es (parent (es q)) e)"

text \<open>
  \<open>1 << k\<close>: the shift count is taken modulo 32.
\<close>

definition shl1 :: "nat \<Rightarrow> 32 word" where
  "shl1 k = push_bit (k mod 32) 1"

text \<open>The \<open>try\<close> block of \<open>run()\<close> up to the call of \<open>fn\<close>.\<close>

definition run_try :: "nat \<Rightarrow> state \<Rightarrow> state" where
  "run_try e s =
     (let depth = Suc (effectTrackDepth s);
          s1 = s\<lparr>effects := (effects s)(e := (effects s e)
                     \<lparr>parent := activeEffect s, lastShouldTrack := shouldTrack s\<rparr>),
                 activeEffect := Some e,
                 shouldTrack := True,
                 effectTrackDepth := depth,
                 trackOpBit := shl1 depth\<rparr>
      in if depth \<le> maxMarkerBits then initDepMarkers e s1 else cleanupEffect e s1)"

text \<open>
  The \<open>finally\<close> block of \<open>run()\<close> up to the test of \<open>deferStop\<close>. It runs only after
  \<open>run_try\<close>, which has incremented \<open>effectTrackDepth\<close>.
\<close>

definition run_finally :: "nat \<Rightarrow> state \<Rightarrow> state" where
  "run_finally e s =
     (let s1 = (if effectTrackDepth s \<le> maxMarkerBits then finalizeDepMarkers e s else s);
          depth = effectTrackDepth s1 - 1
      in s1\<lparr>effectTrackDepth := depth,
            trackOpBit := shl1 depth,
            activeEffect := parent (effects s1 e),
            shouldTrack := lastShouldTrack (effects s1 e),
            effects := (effects s1)(e := (effects s1 e)\<lparr>parent := None\<rparr>)\<rparr>)"

text \<open>
  \<open>stop()\<close> in three pieces, around the call of the \<open>onStop\<close> hook: \<open>stop_defers\<close> is
  the test \<open>activeEffect === this\<close>.
\<close>

definition stop_defer :: "nat \<Rightarrow> state \<Rightarrow> state" where
  "stop_defer e s = s\<lparr>effects := (effects s)(e := (effects s e)\<lparr>deferStop := True\<rparr>)\<rparr>"

definition stop_deactivate :: "nat \<Rightarrow> state \<Rightarrow> state" where
  "stop_deactivate e s = s\<lparr>effects := (effects s)(e := (effects s e)\<lparr>active := False\<rparr>)\<rparr>"


subsection \<open>effect.ts: which Deps a trigger collects\<close>

datatype TriggerOpTypes = SET | ADD | DELETE | CLEAR

text \<open>
  The values of the type Number: the finite ones are rationals (the two zeros are not
  told apart, no operation used here does). \<open>js_ge\<close> is \<open>>=\<close> on numbers, false when
  either side is \<open>NaN\<close>.
\<close>

datatype jsnum = NaN | NegInf | Fin rat | PosInf

fun js_ge :: "jsnum \<Rightarrow> jsnum \<Rightarrow> bool" where
  "js_ge NaN y = False"
| "js_ge x NaN = False"
| "js_ge PosInf y = True"
| "js_ge x NegInf = True"
| "js_ge (Fin a) (Fin b) = (b \<le> a)"
| "js_ge x y = False"

fun js_neg :: "jsnum \<Rightarrow> jsnum" where
  "js_neg NaN = NaN"
| "js_neg NegInf = PosInf"
| "js_neg (Fin a) = Fin (- a)"
| "js_neg PosInf = NegInf"

text \<open>
  The Number nearest to the rational \<open>x / y\<close> (for \<open>x \<ge> 0\<close> and \<open>y > 0\<close>), as the
  language rounds the value of a numeric literal: to 53 significant bits, or to a
  multiple of \<open>2^-1074\<close> below \<open>2^-1022\<close>, a tie going to the even significand, and to
  \<open>Infinity\<close> from \<open>2^1024\<close> on. \<open>bit_length x\<close> is the number of binary digits of
  \<open>x\<close>, \<open>binary_exponent x y\<close> the \<open>e\<close> with \<open>2^e \<le> x / y < 2^(e+1)\<close>, and
  \<open>round_div x y\<close> the integer nearest to \<open>x / y\<close>, the even one of two.
\<close>

function bit_length :: "int \<Rightarrow> nat" where
  "bit_length x = (if x \<le> 0 then 0 else Suc (bit_length (x div 2)))"
  by pat_completeness auto
termination
  by (relation "measure nat") auto

definition round_div :: "int \<Rightarrow> int \<Rightarrow> int" where
  "round_div x y =
     (let qt = x div y; rm = x mod y in
      if 2 * rm < y then qt else if y < 2 * rm then qt + 1 else if even qt then qt else qt + 1)"

definition binary_exponent :: "int \<Rightarrow> int \<Rightarrow> int" where
  "binary_exponent x y =
     (let e0 = int (bit_length x) - int (bit_length y) in
      if (if 0 \<le> e0 then y * 2 ^ nat e0 \<le> x else y \<le> x * 2 ^ nat (- e0)) then e0 else e0 - 1)"

definition to_double :: "int \<Rightarrow> int \<Rightarrow> jsnum" where
  "to_double x y =
     (if x = 0 then Fin 0
      else
        let e = binary_exponent x y in
        if 1024 \<le> e then PosInf
        else
          let u = max e (- 1022) - 52;
              m = (if 0 \<le> u then round_div x (y * 2 ^ nat u) else round_div (x * 2 ^ nat (- u)) y)
          in if e = 1023 \<and> m = 2 ^ 53 then PosInf else Fin (of_int m * power_int 2 u))"

text \<open>
  \<open>key >= newLength\<close> with a string key converts the string to a number first
  (\<open>StringToNumber\<close> of the language). A string is the list of its code units; the type
  \<open>char\<close> covers the code units below 256.
  \<^item> White space and line terminators are stripped at both ends (\<open>trim\<close>); what is left
    must be empty (the number is 0) or one numeric literal, else the number is \<open>NaN\<close>.
  \<^item> \<open>non_decimal\<close>: \<open>0x\<close>, \<open>0o\<close> or \<open>0b\<close> (in either case) and digits of that
    radix, without sign.
  \<^item> \<open>unsigned_decimal\<close>: \<open>Infinity\<close>, or decimal digits with an optional fraction and
    an optional exponent (\<open>exponent_part\<close>), digits being required before or after the
    point; a decimal literal may have a sign.
  \<^item> The value of the literal is rounded to the nearest Number (\<open>to_double\<close>).
\<close>

definition is_ws :: "char \<Rightarrow> bool" where
  "is_ws c = (of_char c \<in> set [9, 10, 11, 12, 13, 32, 160 :: nat])"

definition is_digit :: "char \<Rightarrow> bool" where
  "is_digit c = (48 \<le> (of_char c :: nat) \<and> (of_char c :: nat) \<le> 57)"

definition trim :: "string \<Rightarrow> string" where
  "trim str = rev (dropWhile is_ws (rev (dropWhile is_ws str)))"

definition digits_value :: "string \<Rightarrow> int" where
  "digits_value ds = foldl (\<lambda>a c. 10 * a + (of_char c - 48)) 0 ds"

definition digit_of :: "char \<Rightarrow> int option" where
  "digit_of c =
     (let x = of_char c :: int in
      if 48 \<le> x \<and> x \<le> 57 then Some (x - 48)
      else if 97 \<le> x \<and> x \<le> 102 then Some (x - 87)
      else if 65 \<le> x \<and> x \<le> 70 then Some (x - 55)
      else None)"

definition is_digit_of :: "int \<Rightarrow> char \<Rightarrow> bool" where
  "is_digit_of b c = (case digit_of c of None \<Rightarrow> False | Some d \<Rightarrow> d < b)"

definition radix_value :: "int \<Rightarrow> string \<Rightarrow> int" where
  "radix_value b ds = foldl (\<lambda>a c. b * a + (case digit_of c of None \<Rightarrow> 0 | Some d \<Rightarrow> d)) 0 ds"

definition non_decimal :: "string \<Rightarrow> int option" where
  "non_decimal t =
     (case t of
        z # x # ds \<Rightarrow>
          if z = CHR ''0'' \<and> ds \<noteq> []
          then (if (x = CHR ''x'' \<or> x = CHR ''X'') \<and> list_all (is_digit_of 16) ds
                then Some (radix_value 16 ds)
                else if (x = CHR ''o'' \<or> x = CHR ''O'') \<and> list_all (is_digit_of 8) ds
                then Some (radix_value 8 ds)
                else if (x = CHR ''b'' \<or> x = CHR ''B'') \<and> list_all (is_digit_of 2) ds
                then Some (radix_value 2 ds)
                else None)
          else None
      | _ \<Rightarrow> None)"

definition exponent_part :: "string \<Rightarrow> int option" where
  "exponent_part r =
     (case r of
        [] \<Rightarrow> Some 0
      | c # ds \<Rightarrow>
          if c = CHR ''e'' \<or> c = CHR ''E''
          then (case ds of
                  [] \<Rightarrow> None
                | sg # ds' \<Rightarrow>
                    if sg = CHR ''+'' \<and> ds' \<noteq> [] \<and> list_all is_digit ds'
                    then Some (digits_value ds')
                    else if sg = CHR ''-'' \<and> ds' \<noteq> [] \<and> list_all is_digit ds'
                    then Some (- digits_value ds')
                    else if list_all is_digit ds then Some (digits_value ds)
                    else None)
          else None)"

definition unsigned_decimal :: "string \<Rightarrow> jsnum" where
  "unsigned_decimal u =
     (if u = ''Infinity'' then PosInf
      else
        let ip = takeWhile is_digit u;
            r1 = dropWhile is_digit u;
            dot = (r1 \<noteq> [] \<and> hd r1 = CHR ''.'');
            fp = (if dot then takeWhile is_digit (tl r1) else []);
            r2 = (if dot then dropWhile is_digit (tl r1) else r1)
        in if ip = [] \<and> fp = [] then NaN
           else case exponent_part r2 of
                  None \<Rightarrow> NaN
                | Some e \<Rightarrow>
                    (let ex = e - int (length fp) in
                     if 0 \<le> ex then to_double (digits_value (ip @ fp) * 10 ^ nat ex) 1
                     else to_double (digits_value (ip @ fp)) (10 ^ nat (- ex))))"

definition toNumber :: "string \<Rightarrow> jsnum" where
  "toNumber str =
     (let t = trim str in
      if t = [] then Fin 0
      else case non_decimal t of
             Some v \<Rightarrow> to_double v 1
           | None \<Rightarrow>
               if hd t = CHR ''+'' then unsigned_decimal (tl t)
               else if hd t = CHR ''-'' then js_neg (unsigned_decimal (tl t))
               else unsigned_decimal t)"

text \<open>
  Modelled from the spec: \<open>isIntegerKey\<close> of \<open>@vue/shared\<close> is not among the sources. The
  spec speaks of an "integer key" of a sequence: a string that is the decimal numeral of a
  natural number, without sign or leading zeros.
\<close>

definition isIntegerKey :: "key \<Rightarrow> bool" where
  "isIntegerKey k =
     (case k of
        KSym _ \<Rightarrow> False
      | KStr str \<Rightarrow>
          str \<noteq> [] \<and> list_all is_digit str \<and> (if hd str = CHR ''0'' then str = ''0'' else True))"

text \<open>
  What can go wrong in a trigger: \<open>symbol >= number\<close> throws a \<open>TypeError\<close>.
\<close>

datatype error = TypeError

text \<open>
  The \<open>forEach\<close> of the \<open>length\<close> branch of \<open>trigger\<close>: the Deps pushed, in the order of
  the map. An exception thrown by the callback ends the loop and the trigger.
\<close>

fun length_deps :: "jsnum \<Rightarrow> (key \<times> nat) list \<Rightarrow> error + nat option list" where
  "length_deps newLength [] = Inr []"
| "length_deps newLength ((k, d) # m) =
     (if k = KStr ''length'' then map_sum id (Cons (Some d)) (length_deps newLength m)
      else case k of
        KSym _ \<Rightarrow> Inl TypeError
      | KStr str \<Rightarrow>
          if js_ge (toNumber str) newLength
          then map_sum id (Cons (Some d)) (length_deps newLength m)
          else length_deps newLength m)"

text \<open>
  The array \<open>deps\<close> that \<open>trigger\<close> builds from the \<open>KeyToDepMap\<close> of the target; an
  entry is \<open>None\<close> where \<open>depsMap.get\<close> returned \<open>undefined\<close>. \<open>key\<close> is \<open>None\<close> when
  the argument is \<open>undefined\<close>, and \<open>newValue\<close> is \<open>Number(newValue)\<close>.
\<close>

definition collect_deps ::
  "target \<Rightarrow> TriggerOpTypes \<Rightarrow> key option \<Rightarrow> jsnum \<Rightarrow> (key \<times> nat) list
     \<Rightarrow> error + nat option list" where
  "collect_deps t ty k newValue depsMap =
     (if ty = CLEAR then Inr (map (\<lambda>kd. Some (snd kd)) depsMap)
      else if k = Some (KStr ''length'') \<and> isArray t then length_deps newValue depsMap
      else Inr
        ((case k of None \<Rightarrow> [] | Some k' \<Rightarrow> [map_of depsMap k']) @
         (case ty of
            ADD \<Rightarrow>
              if \<not> isArray t
              then [map_of depsMap ITERATE_KEY] @
                   (if isMap t then [map_of depsMap MAP_KEY_ITERATE_KEY] else [])
              else if (case k of None \<Rightarrow> False | Some k' \<Rightarrow> isIntegerKey k')
                   then [map_of depsMap (KStr ''length'')] else []
          | DELETE \<Rightarrow>
              if \<not> isArray t
              then [map_of depsMap ITERATE_KEY] @
                   (if isMap t then [map_of depsMap MAP_KEY_ITERATE_KEY] else [])
              else []
          | SET \<Rightarrow> if isMap t then [map_of depsMap ITERATE_KEY] else []
          | CLEAR \<Rightarrow> [])))"

text \<open>
  The end of \<open>trigger\<close>: the effects handed to \<open>triggerEffects\<close>, as the array that
  \<open>triggerEffects\<close> makes of its argument, or \<open>None\<close> when \<open>triggerEffects\<close> is not
  called.
\<close>

definition effects_of_deps :: "(nat \<Rightarrow> dep) \<Rightarrow> nat option list \<Rightarrow> nat list option" where
  "effects_of_deps st ds =
     (if length ds = 1
      then (case hd ds of None \<Rightarrow> None | Some d \<Rightarrow> Some (members (st d)))
      else Some (members (createDep
             (concat (map (\<lambda>x. case x of None \<Rightarrow> [] | Some d \<Rightarrow> members (st d)) ds)))))"

definition trigger_effects ::
  "target \<Rightarrow> TriggerOpTypes \<Rightarrow> key option \<Rightarrow> jsnum \<Rightarrow> state \<Rightarrow> error + nat list option" where
  "trigger_effects t ty k newValue s =
     (case targetMap s t of
        None \<Rightarrow> Inr None
      | Some depsMap \<Rightarrow> map_sum id (effects_of_deps (depStore s)) (collect_deps t ty k newValue depsMap))"

subsection \<open>effect.ts: triggerEffects and triggerEffect\<close>

text \<open>
  What \<open>triggerEffect\<close> does with an effect, in the production build (the \<open>onTrigger\<close>
  hook is development only): nothing, a call of its scheduler, or a call of \<open>run()\<close>.
\<close>

datatype action = Skip | CallScheduler nat | CallRun

definition triggerEffect_action :: "nat option \<Rightarrow> nat \<Rightarrow> effect \<Rightarrow> action" where
  "triggerEffect_action ae e ef =
     (if Some e \<noteq> ae \<or> allowRecurse ef
      then (case scheduler ef of Some r \<Rightarrow> CallScheduler r | None \<Rightarrow> CallRun)
      else Skip)"

text \<open>
  The order in which one call of \<open>triggerEffects\<close> hands the effects of its array to
  \<open>triggerEffect\<close>: the first loop takes those with \<open>computed\<close> set, the second the others.
\<close>

definition triggerEffects_order :: "(nat \<Rightarrow> effect) \<Rightarrow> nat list \<Rightarrow> nat list" where
  "triggerEffects_order es effs =
     filter (\<lambda>e. computed (es e)) effs @ filter (\<lambda>e. \<not> computed (es e)) effs"

subsection \<open>pauseTracking, enableTracking, resetTracking\<close>

text \<open>\<open>trackStack.push\<close> appends at the end of the list and \<open>pop\<close> takes from the end.\<close>

definition pauseTracking :: "state \<Rightarrow> state" where
  "pauseTracking s = s\<lparr>trackStack := trackStack s @ [shouldTrack s], shouldTrack := False\<rparr>"

definition enableTracking :: "state \<Rightarrow> state" where
  "enableTracking s = s\<lparr>trackStack := trackStack s @ [shouldTrack s], shouldTrack := True\<rparr>"

text \<open>\<open>pop()\<close> of an empty array returns \<open>undefined\<close> and leaves the array empty.\<close>

definition resetTracking :: "state \<Rightarrow> state" where
  "resetTracking s =
     (if trackStack s = [] then s\<lparr>shouldTrack := True\<rparr>
      else s\<lparr>trackStack := butlast (trackStack s), shouldTrack := last (trackStack s)\<rparr>)"


subsection \<open>effect.ts: run(), stop(), trigger() with the host program's code\<close>

text \<open>
  The functions that an effect carries (\<open>fn\<close>, \<open>scheduler\<close>, \<open>onStop\<close>) are code of
  the host program. All it can do to the state of this module is call the module's
  exported operations, so a routine is given as the list of calls it makes, which may
  depend on the state it is started in.
\<close>

datatype cmd =
    Track target key
  | Trigger target TriggerOpTypes "key option" jsnum
  | Run nat
  | Stop nat
  | PauseTracking
  | EnableTracking
  | ResetTracking

type_synonym program = "nat \<Rightarrow> state \<Rightarrow> cmd list"

text \<open>
  A call returns (\<open>Done\<close>) or throws (\<open>Threw\<close>), in either case with the state it
  leaves. The program may also never return: the functions below take a bound on the
  depth of nested calls and answer \<open>None\<close> when it is used up.
\<close>

datatype outcome = Done state | Threw state

fun state_of :: "outcome \<Rightarrow> state" where
  "state_of (Done s) = s"
| "state_of (Threw s) = s"

function (sequential) exec :: "program \<Rightarrow> nat \<Rightarrow> cmd list \<Rightarrow> state \<Rightarrow> outcome option"
  and call :: "program \<Rightarrow> nat \<Rightarrow> cmd \<Rightarrow> state \<Rightarrow> outcome option"
  and run :: "program \<Rightarrow> nat \<Rightarrow> nat \<Rightarrow> state \<Rightarrow> outcome option"
  and stop :: "program \<Rightarrow> nat \<Rightarrow> nat \<Rightarrow> state \<Rightarrow> outcome option"
  and triggerEffects_loop :: "program \<Rightarrow> nat \<Rightarrow> bool \<Rightarrow> nat list \<Rightarrow> state \<Rightarrow> outcome option"
  and triggerEffect :: "program \<Rightarrow> nat \<Rightarrow> nat \<Rightarrow> state \<Rightarrow> outcome option"
where
  "exec P k [] s = Some (Done s)"
| "exec P k (c # cs) s =
     (case call P k c s of
        None \<Rightarrow> None
      | Some (Threw s') \<Rightarrow> Some (Threw s')
      | Some (Done s') \<Rightarrow> exec P k cs s')"
| "call P 0 c s = None"
| "call P (Suc k) c s =
     (case c of
        Track t key \<Rightarrow> Some (Done (track t key s))
      | PauseTracking \<Rightarrow> Some (Done (pauseTracking s))
      | EnableTracking \<Rightarrow> Some (Done (enableTracking s))
      | ResetTracking \<Rightarrow> Some (Done (resetTracking s))
      | Run e \<Rightarrow> run P k e s
      | Stop e \<Rightarrow> stop P k e s
      | Trigger t ty key newValue \<Rightarrow>
          (case trigger_effects t ty key newValue s of
             Inl TypeError \<Rightarrow> Some (Threw s)
           | Inr None \<Rightarrow> Some (Done s)
           | Inr (Some effs) \<Rightarrow>
               (case triggerEffects_loop P k True effs s of
                  None \<Rightarrow> None
                | Some (Threw s') \<Rightarrow> Some (Threw s')
                | Some (Done s') \<Rightarrow> triggerEffects_loop P k False effs s')))"
| "run P k e s =
     (if \<not> active (effects s e)
      then exec P k (P (fn (effects s e)) s) (s\<lparr>trace := trace s @ [FnCalled e]\<rparr>)
      else case on_parent_chain (effects s) (activeEffect s) e of
        None \<Rightarrow> None
      | Some True \<Rightarrow> Some (Done s)
      | Some False \<Rightarrow>
          (let s1 = run_try e s in
           case exec P k (P (fn (effects s1 e)) s1) (s1\<lparr>trace := trace s1 @ [FnCalled e]\<rparr>) of
             None \<Rightarrow> None
           | Some r \<Rightarrow>
               (let s2 = run_finally e (state_of r) in
                case (if deferStop (effects s2 e) then stop P k e s2 else Some (Done s2)) of
                  None \<Rightarrow> None
                | Some (Threw s3) \<Rightarrow> Some (Threw s3)
                | Some (Done s3) \<Rightarrow> Some (case r of Done _ \<Rightarrow> Done s3 | Threw _ \<Rightarrow> Threw s3))))"
| "stop P k e s =
     (if activeEffect s = Some e then Some (Done (stop_defer e s))
      else if active (effects s e)
      then (let s1 = cleanupEffect e s in
            case (case onStop (effects s1 e) of
                    None \<Rightarrow> Some (Done s1)
                  | Some h \<Rightarrow> exec P k (P h s1) (s1\<lparr>trace := trace s1 @ [OnStopCalled e]\<rparr>)) of
              None \<Rightarrow> None
            | Some (Threw s2) \<Rightarrow> Some (Threw s2)
            | Some (Done s2) \<Rightarrow> Some (Done (stop_deactivate e s2)))
      else Some (Done s))"
| "triggerEffects_loop P k c [] s = Some (Done s)"
| "triggerEffects_loop P k c (e # es) s =
     (if computed (effects s e) = c
      then (case triggerEffect P k e s of
              None \<Rightarrow> None
            | Some (Threw s') \<Rightarrow> Some (Threw s')
            | Some (Done s') \<Rightarrow> triggerEffects_loop P k c es s')
      else triggerEffects_loop P k c es s)"
| "triggerEffect P k e s =
     (case triggerEffect_action (activeEffect s) e (effects s e) of
        Skip \<Rightarrow> Some (Done s)
      | CallScheduler r \<Rightarrow> exec P k (P r s) (s\<lparr>trace := trace s @ [SchedulerCalled e]\<rparr>)
      | CallRun \<Rightarrow> run P k e s)"
  by pat_completeness auto

termination
  apply (relation "inv_image (less_than <*lex*> less_than <*lex*> less_than)
       (\<lambda>x. case x of
          Inl (Inl (P, k, cs, s)) \<Rightarrow> (k, 1::nat, length cs)
        | Inl (Inr (Inl (P, k, c, s))) \<Rightarrow> (k, 0, 0)
        | Inl (Inr (Inr (P, k, e, s))) \<Rightarrow> (k, 3, 0)
        | Inr (Inl (P, k, e, s)) \<Rightarrow> (k, 2, 0)
        | Inr (Inr (Inl (P, k, c, es, s))) \<Rightarrow> (k, 5, length es)
        | Inr (Inr (Inr (P, k, e, s))) \<Rightarrow> (k, 4, 0))")
   apply (intro wf_inv_image wf_lex_prod wf_less_than)
   apply simp_all
  done

text \<open>
  \<open>triggerEffects\<close> on the array of effects (the two loops), and \<open>trigger\<close>, as the host
  program calls it.
\<close>

definition triggerEffects :: "program \<Rightarrow> nat \<Rightarrow> nat list \<Rightarrow> state \<Rightarrow> outcome option" where
  "triggerEffects P k effs s =
     (case triggerEffects_loop P k True effs s of
        None \<Rightarrow> None
      | Some (Threw s') \<Rightarrow> Some (Threw s')
      | Some (Done s') \<Rightarrow> triggerEffects_loop P k False effs s')"

definition trigger ::
  "program \<Rightarrow> nat \<Rightarrow> target \<Rightarrow> TriggerOpTypes \<Rightarrow> key option \<Rightarrow> jsnum \<Rightarrow> state \<Rightarrow> outcome option" where
  "trigger P k t ty key newValue s = call P (Suc k) (Trigger t ty key newValue) s"

text \<open>
  For comparison with \<open>triggerEffects\<close>: \<open>triggerEffect\<close> called on the effects of a list,
  one after the other, until one of the calls throws.
\<close>

fun dispatch :: "program \<Rightarrow> nat \<Rightarrow> nat list \<Rightarrow> state \<Rightarrow> outcome option" where
  "dispatch P k [] s = Some (Done s)"
| "dispatch P k (e # es) s =
     (case triggerEffect P k e s of
        None \<Rightarrow> None
      | Some (Threw s') \<Rightarrow> Some (Threw s')
      | Some (Done s') \<Rightarrow> dispatch P k es s')"

section \<open>Scheduler (scheduler.ts)\<close>

text \<open>
  A \<open>SchedulerJob\<close> is a function object with properties. Jobs are addressed by natural
  numbers (the identity that \<open>includes\<close> and \<open>indexOf\<close> compare); a table gives the
  properties of each job. \<open>job_id\<close> is \<open>None\<close> when \<open>id\<close> is \<open>null\<close> or \<open>undefined\<close>;
  \<open>job_active\<close> is false only when \<open>active === false\<close>; \<open>pre\<close> and \<open>job_allowRecurse\<close>
  are false when the property is absent.
\<close>

record job =
  job_id :: "int option"
  pre :: bool
  job_active :: bool
  job_allowRecurse :: bool

type_synonym jobs = "nat \<Rightarrow> job"

text \<open>
  The jobs that were invoked, in order: by the loop of \<open>flushJobs\<close>, by
  \<open>flushPreFlushCbs\<close> and by \<open>flushPostFlushCbs\<close>.
\<close>

datatype sevent = JobRun nat | PreRun nat | PostRun nat

text \<open>
  The module-level variables of scheduler.ts. The promise \<open>currentFlushPromise\<close> is not
  kept: \<open>isFlushPending\<close> says that the microtask that will call \<open>flushJobs\<close> is
  scheduled. \<open>ran\<close> records the invocations.
\<close>

record sched =
  queue :: "nat list"
  flushIndex :: nat
  isFlushing :: bool
  isFlushPending :: bool
  pendingPostFlushCbs :: "nat list"
  activePostFlushCbs :: "nat list option"
  postFlushIndex :: nat
  ran :: "sevent list"

definition initial_sched :: sched where
  "initial_sched =
     \<lparr>queue = [], flushIndex = 0, isFlushing = False, isFlushPending = False,
      pendingPostFlushCbs = [], activePostFlushCbs = None, postFlushIndex = 0, ran = []\<rparr>"

text \<open>
  \<open>getId(job) < id\<close>, where \<open>getId\<close> is \<open>Infinity\<close> for a job without id.
\<close>

definition getId_less :: "job \<Rightarrow> int \<Rightarrow> bool" where
  "getId_less jb i = (case job_id jb of None \<Rightarrow> False | Some x \<Rightarrow> x < i)"

text \<open>
  The binary search of \<open>findInsertionIndex\<close>. It reads \<open>queue[middle]\<close> with
  \<open>middle < end\<close>, and \<open>end\<close> starts as \<open>queue.length\<close>.
\<close>

function findInsertionIndex_loop :: "jobs \<Rightarrow> nat list \<Rightarrow> int \<Rightarrow> nat \<Rightarrow> nat \<Rightarrow> nat" where
  "findInsertionIndex_loop J q i start end =
     (if start < end
      then (let middle = (start + end) div 2 in
            if getId_less (J (q ! middle)) i
            then findInsertionIndex_loop J q i (middle + 1) end
            else findInsertionIndex_loop J q i start middle)
      else start)"
  by pat_completeness auto
termination
  by (relation "measure (\<lambda>(J, q, i, start, end). end - start)") auto

definition findInsertionIndex :: "jobs \<Rightarrow> int \<Rightarrow> sched \<Rightarrow> nat" where
  "findInsertionIndex J i s = findInsertionIndex_loop J (queue s) i (flushIndex s + 1) (length (queue s))"

definition queueFlush :: "sched \<Rightarrow> sched" where
  "queueFlush s = (if \<not> isFlushing s \<and> \<not> isFlushPending s then s\<lparr>isFlushPending := True\<rparr> else s)"

text \<open>\<open>arr.includes(x, fromIndex)\<close> and \<open>arr.splice(i, 0, x)\<close>.\<close>

definition array_includes :: "nat list \<Rightarrow> nat \<Rightarrow> nat \<Rightarrow> bool" where
  "array_includes xs x fromIndex = (x \<in> set (drop fromIndex xs))"

definition splice_in :: "nat \<Rightarrow> nat \<Rightarrow> nat list \<Rightarrow> nat list" where
  "splice_in i x xs = take i xs @ [x] @ drop i xs"

definition dedupe_start :: "jobs \<Rightarrow> nat \<Rightarrow> sched \<Rightarrow> nat" where
  "dedupe_start J j s =
     (if isFlushing s \<and> job_allowRecurse (J j) then flushIndex s + 1 else flushIndex s)"

definition queueJob :: "jobs \<Rightarrow> nat \<Rightarrow> sched \<Rightarrow> sched" where
  "queueJob J j s =
     (if queue s = [] \<or> \<not> array_includes (queue s) j (dedupe_start J j s)
      then queueFlush
             (case job_id (J j) of
                None \<Rightarrow> s\<lparr>queue := queue s @ [j]\<rparr>
              | Some i \<Rightarrow> s\<lparr>queue := splice_in (findInsertionIndex J i s) j (queue s)\<rparr>)
      else s)"

text \<open>\<open>indexOf\<close> gives the first index of the job, and -1 when it is absent.\<close>

definition indexOf :: "nat list \<Rightarrow> nat \<Rightarrow> nat option" where
  "indexOf xs x = (if x \<in> set xs then Some (length (takeWhile (\<lambda>y. y \<noteq> x) xs)) else None)"

definition invalidateJob :: "nat \<Rightarrow> sched \<Rightarrow> sched" where
  "invalidateJob j s =
     (case indexOf (queue s) j of
        None \<Rightarrow> s
      | Some i \<Rightarrow> if flushIndex s < i then s\<lparr>queue := take i (queue s) @ drop (Suc i) (queue s)\<rparr> else s)"

definition queuePostFlushCb :: "jobs \<Rightarrow> nat \<Rightarrow> sched \<Rightarrow> sched" where
  "queuePostFlushCb J cb s =
     queueFlush
       (if (case activePostFlushCbs s of
              None \<Rightarrow> True
            | Some act \<Rightarrow>
                \<not> array_includes act cb
                    (if job_allowRecurse (J cb) then postFlushIndex s + 1 else postFlushIndex s))
        then s\<lparr>pendingPostFlushCbs := pendingPostFlushCbs s @ [cb]\<rparr>
        else s)"

definition queuePostFlushCbs :: "nat list \<Rightarrow> sched \<Rightarrow> sched" where
  "queuePostFlushCbs cbs s = queueFlush (s\<lparr>pendingPostFlushCbs := pendingPostFlushCbs s @ cbs\<rparr>)"

text \<open>
  \<open>comparator\<close>, by the sign of the number it returns. For two jobs without id the
  difference is \<open>Infinity - Infinity = NaN\<close>, which is not \<open>=== 0\<close> and is returned as
  it is; \<open>Array.prototype.sort\<close> takes \<open>NaN\<close> for 0.
\<close>

definition comparator :: "job \<Rightarrow> job \<Rightarrow> int" where
  "comparator a b =
     (case (job_id a, job_id b) of
        (None, None) \<Rightarrow> 0
      | (None, Some y) \<Rightarrow> 1
      | (Some x, None) \<Rightarrow> - 1
      | (Some x, Some y) \<Rightarrow>
          if x - y = 0
          then (if pre a \<and> \<not> pre b then - 1 else if pre b \<and> \<not> pre a then 1 else 0)
          else sgn (x - y))"

text \<open>The comparison function of the sort in \<open>flushPostFlushCbs\<close>: \<open>getId(a) - getId(b)\<close>.\<close>

definition post_comparator :: "job \<Rightarrow> job \<Rightarrow> int" where
  "post_comparator a b =
     (case (job_id a, job_id b) of
        (None, None) \<Rightarrow> 0
      | (None, Some y) \<Rightarrow> 1
      | (Some x, None) \<Rightarrow> - 1
      | (Some x, Some y) \<Rightarrow> sgn (x - y))"

text \<open>
  \<open>Array.prototype.sort\<close> is a stable sort: with a comparison function that orders the
  elements consistently, as these two do, its result is the one of insertion sort, each
  element going behind those it is not less than.
\<close>

fun insert_sorted :: "('a \<Rightarrow> 'a \<Rightarrow> int) \<Rightarrow> 'a \<Rightarrow> 'a list \<Rightarrow> 'a list" where
  "insert_sorted cmp x [] = [x]"
| "insert_sorted cmp x (y # ys) = (if cmp x y < 0 then x # y # ys else y # insert_sorted cmp x ys)"

definition sort_by :: "('a \<Rightarrow> 'a \<Rightarrow> int) \<Rightarrow> 'a list \<Rightarrow> 'a list" where
  "sort_by cmp xs = foldl (\<lambda>acc x. insert_sorted cmp x acc) [] xs"

text \<open>
  What the code of a job does to the scheduler: it calls the exported functions. As for
  effects, the code of a job is given as the list of its calls, which may depend on the
  state it starts in. The production build is modelled (\<open>__DEV__\<close> is false): the
  recursion check \<open>checkRecursiveUpdates\<close> is not made.
\<close>

datatype scmd =
    QueueJob nat
  | QueuePostFlushCb nat
  | QueuePostFlushCbArray "nat list"
  | InvalidateJob nat
  | FlushPreFlushCbs
  | FlushPostFlushCbs

type_synonym bodies = "nat \<Rightarrow> sched \<Rightarrow> scmd list"

text \<open>
  The loops below run jobs, which may enqueue more jobs, so they need not end: each
  takes a bound on the number of iterations and nested calls and answers \<open>None\<close> when it
  is used up.
\<close>

function (sequential)
      sexec :: "jobs \<Rightarrow> bodies \<Rightarrow> nat \<Rightarrow> scmd list \<Rightarrow> sched \<Rightarrow> sched option"
  and scall :: "jobs \<Rightarrow> bodies \<Rightarrow> nat \<Rightarrow> scmd \<Rightarrow> sched \<Rightarrow> sched option"
  and flushPreFlushCbs :: "jobs \<Rightarrow> bodies \<Rightarrow> nat \<Rightarrow> nat \<Rightarrow> sched \<Rightarrow> sched option"
  and flushPostFlushCbs :: "jobs \<Rightarrow> bodies \<Rightarrow> nat \<Rightarrow> sched \<Rightarrow> sched option"
  and flushPostFlushCbs_loop :: "jobs \<Rightarrow> bodies \<Rightarrow> nat \<Rightarrow> sched \<Rightarrow> sched option"
  and flushJobs :: "jobs \<Rightarrow> bodies \<Rightarrow> nat \<Rightarrow> sched \<Rightarrow> sched option"
  and flushJobs_loop :: "jobs \<Rightarrow> bodies \<Rightarrow> nat \<Rightarrow> sched \<Rightarrow> sched option"
where
  "sexec J B k [] s = Some s"
| "sexec J B k (c # cs) s =
     (case scall J B k c s of None \<Rightarrow> None | Some s' \<Rightarrow> sexec J B k cs s')"
| "scall J B 0 c s = None"
| "scall J B (Suc k) c s =
     (case c of
        QueueJob j \<Rightarrow> Some (queueJob J j s)
      | QueuePostFlushCb cb \<Rightarrow> Some (queuePostFlushCb J cb s)
      | QueuePostFlushCbArray cbs \<Rightarrow> Some (queuePostFlushCbs cbs s)
      | InvalidateJob j \<Rightarrow> Some (invalidateJob j s)
      | FlushPreFlushCbs \<Rightarrow>
          flushPreFlushCbs J B k (if isFlushing s then flushIndex s + 1 else 0) s
      | FlushPostFlushCbs \<Rightarrow> flushPostFlushCbs J B k s)"
| "flushPreFlushCbs J B 0 i s = None"
| "flushPreFlushCbs J B (Suc k) i s =
     (if i < length (queue s)
      then (let cb = queue s ! i in
            if pre (J cb)
            then (let s1 = s\<lparr>queue := take i (queue s) @ drop (Suc i) (queue s)\<rparr> in
                  case sexec J B k (B cb s1) (s1\<lparr>ran := ran s1 @ [PreRun cb]\<rparr>) of
                    None \<Rightarrow> None
                  | Some s2 \<Rightarrow> flushPreFlushCbs J B k i s2)
            else flushPreFlushCbs J B k (i + 1) s)
      else Some s)"
| "flushPostFlushCbs J B k s =
     (if pendingPostFlushCbs s \<noteq> []
      then (let deduped = rev (remdups (rev (pendingPostFlushCbs s)));
                s1 = s\<lparr>pendingPostFlushCbs := []\<rparr> in
            case activePostFlushCbs s1 of
              Some act \<Rightarrow> Some (s1\<lparr>activePostFlushCbs := Some (act @ deduped)\<rparr>)
            | None \<Rightarrow>
                (case flushPostFlushCbs_loop J B k
                        (s1\<lparr>activePostFlushCbs :=
                               Some (sort_by (\<lambda>a b. post_comparator (J a) (J b)) deduped),
                            postFlushIndex := 0\<rparr>) of
                   None \<Rightarrow> None
                 | Some s2 \<Rightarrow> Some (s2\<lparr>activePostFlushCbs := None, postFlushIndex := 0\<rparr>)))
      else Some s)"
| "flushPostFlushCbs_loop J B 0 s = None"
| "flushPostFlushCbs_loop J B (Suc k) s =
     (case activePostFlushCbs s of
        None \<Rightarrow> None
      | Some act \<Rightarrow>
          if postFlushIndex s < length act
          then (let cb = act ! postFlushIndex s in
                case sexec J B k (B cb s) (s\<lparr>ran := ran s @ [PostRun cb]\<rparr>) of
                  None \<Rightarrow> None
                | Some s1 \<Rightarrow> flushPostFlushCbs_loop J B k (s1\<lparr>postFlushIndex := postFlushIndex s1 + 1\<rparr>))
          else Some s)"
| "flushJobs J B 0 s = None"
| "flushJobs J B (Suc k) s =
     (case flushJobs_loop J B k
             (s\<lparr>isFlushPending := False, isFlushing := True,
                queue := sort_by (\<lambda>a b. comparator (J a) (J b)) (queue s),
                flushIndex := 0\<rparr>) of
        None \<Rightarrow> None
      | Some s1 \<Rightarrow>
          (case flushPostFlushCbs J B k (s1\<lparr>flushIndex := 0, queue := []\<rparr>) of
             None \<Rightarrow> None
           | Some s2 \<Rightarrow>
               (let s3 = s2\<lparr>isFlushing := False\<rparr> in
                if queue s3 \<noteq> [] \<or> pendingPostFlushCbs s3 \<noteq> [] then flushJobs J B k s3
                else Some s3)))"
| "flushJobs_loop J B 0 s = None"
| "flushJobs_loop J B (Suc k) s =
     (if flushIndex s < length (queue s)
      then (let jb = queue s ! flushIndex s in
            case (if job_active (J jb)
                  then sexec J B k (B jb s) (s\<lparr>ran := ran s @ [JobRun jb]\<rparr>)
                  else Some s) of
              None \<Rightarrow> None
            | Some s1 \<Rightarrow> flushJobs_loop J B k (s1\<lparr>flushIndex := flushIndex s1 + 1\<rparr>))
      else Some s)"
  by pat_completeness auto
termination
  apply (relation "inv_image (less_than <*lex*> less_than <*lex*> less_than)
       (\<lambda>x. case x of
          Inl (Inl (J, B, k, cs, s)) \<Rightarrow> (k, 1::nat, length cs)
        | Inl (Inr (Inl (J, B, k, c, s))) \<Rightarrow> (k, 0, 0)
        | Inl (Inr (Inr (J, B, k, i, s))) \<Rightarrow> (k, 0, 0)
        | Inr (Inl (Inl (J, B, k, s))) \<Rightarrow> (k, 2, 0)
        | Inr (Inl (Inr (J, B, k, s))) \<Rightarrow> (k, 0, 0)
        | Inr (Inr (Inl (J, B, k, s))) \<Rightarrow> (k, 0, 0)
        | Inr (Inr (Inr (J, B, k, s))) \<Rightarrow> (k, 0, 0))")
   apply (intro wf_inv_image wf_lex_prod wf_less_than)
   apply simp_all
  done

section \<open>Deferred computed (deferredComputed.ts)\<close>

text \<open>
  The effects of the Dep of a deferred computed: an effect whose \<open>computed\<close> is itself a
  \<open>DeferredComputedRefImpl\<close> (given by the address of that object), or any other effect,
  with its \<open>computed\<close> flag.
\<close>

datatype sub = DeferredSub nat | EffectSub nat bool

text \<open>
  The closure that the scheduler of a deferred computed hands to the module's \<open>scheduler\<close>:
  it holds \<open>this\<close> and the constant \<open>valueToCompare\<close>.
\<close>

datatype 'v callback = Flush nat 'v

text \<open>
  What is observed: the calls of \<open>triggerRefValue\<close>, and the effects it triggers.
\<close>

datatype devent = RefTriggered nat | EffectTriggered nat

text \<open>
  A \<open>DeferredComputedRefImpl\<close>: the fields \<open>dep\<close>, \<open>_value\<close>, \<open>_dirty\<close> and
  \<open>effect.active\<close>, and the variables \<open>compareTarget\<close>, \<open>hasCompareTarget\<close> and
  \<open>scheduled\<close> of its constructor, which the scheduler closure shares. Values are of any
  type \<open>'v\<close>, compared by \<open>!==\<close> as by inequality.
\<close>

record 'v deferred =
  dc_dep :: "sub list option"
  dc_value :: 'v
  dc_dirty :: bool
  effect_active :: bool
  compareTarget :: 'v
  hasCompareTarget :: bool
  scheduled :: bool

text \<open>
  The objects, and the module's \<open>queue\<close> and \<open>queued\<close>; \<open>queued\<close> says that the
  microtask \<open>flush\<close> is scheduled.
\<close>

record 'v dstate =
  comps :: "nat \<Rightarrow> 'v deferred"
  dqueue :: "'v callback list"
  queued :: bool
  dlog :: "devent list"

text \<open>The module's \<open>scheduler(fn)\<close>.\<close>

definition module_scheduler :: "'v callback \<Rightarrow> 'v dstate \<Rightarrow> 'v dstate" where
  "module_scheduler f s = s\<lparr>dqueue := dqueue s @ [f], queued := True\<rparr>"

text \<open>
  The scheduler of the effect of a deferred computed whose \<open>dep\<close> is set, up to the loop
  over the Dep.
\<close>

definition scheduler_head :: "nat \<Rightarrow> bool \<Rightarrow> 'v dstate \<Rightarrow> 'v dstate" where
  "scheduler_head c computedTrigger s =
     (let dc = comps s c in
      if computedTrigger
      then s\<lparr>comps := (comps s)(c := dc\<lparr>compareTarget := dc_value dc, hasCompareTarget := True\<rparr>)\<rparr>
      else if \<not> scheduled dc
      then (let valueToCompare = (if hasCompareTarget dc then compareTarget dc else dc_value dc) in
            module_scheduler (Flush c valueToCompare)
              (s\<lparr>comps := (comps s)(c := dc\<lparr>scheduled := True, hasCompareTarget := False\<rparr>)\<rparr>))
      else s)"

definition set_dirty :: "nat \<Rightarrow> 'v dstate \<Rightarrow> 'v dstate" where
  "set_dirty c s = s\<lparr>comps := (comps s)(c := (comps s c)\<lparr>dc_dirty := True\<rparr>)\<rparr>"

text \<open>
  The scheduler, and its loop over the Dep, which calls the scheduler of every deferred
  computed downstream with \<open>computedTrigger = true\<close>. Deps that form a cycle make it
  call itself for ever: the functions take a bound on the depth of the calls.
\<close>

fun deferred_scheduler :: "nat \<Rightarrow> nat \<Rightarrow> bool \<Rightarrow> 'v dstate \<Rightarrow> 'v dstate option"
  and notify_computeds :: "nat \<Rightarrow> sub list \<Rightarrow> 'v dstate \<Rightarrow> 'v dstate option"
where
  "deferred_scheduler 0 c computedTrigger s = None"
| "deferred_scheduler (Suc k) c computedTrigger s =
     (case dc_dep (comps s c) of
        None \<Rightarrow> Some (set_dirty c s)
      | Some subs \<Rightarrow>
          (case notify_computeds k subs (scheduler_head c computedTrigger s) of
             None \<Rightarrow> None
           | Some s' \<Rightarrow> Some (set_dirty c s')))"
| "notify_computeds k [] s = Some s"
| "notify_computeds k (DeferredSub d # subs) s =
     (case deferred_scheduler k d True s of
        None \<Rightarrow> None
      | Some s' \<Rightarrow> notify_computeds k subs s')"
| "notify_computeds k (EffectSub e b # subs) s = notify_computeds k subs s"

text \<open>
  \<open>_get()\<close>. \<open>G c s\<close> is what \<open>this.effect.run()\<close> returns in the state \<open>s\<close>: the
  value of the getter.
\<close>

definition deferred_get :: "(nat \<Rightarrow> 'v dstate \<Rightarrow> 'v) \<Rightarrow> nat \<Rightarrow> 'v dstate \<Rightarrow> 'v \<times> 'v dstate" where
  "deferred_get G c s =
     (if dc_dirty (comps s c)
      then (let s1 = s\<lparr>comps := (comps s)(c := (comps s c)\<lparr>dc_dirty := False\<rparr>)\<rparr>;
                v = G c s1
            in (v, s1\<lparr>comps := (comps s1)(c := (comps s1 c)\<lparr>dc_value := v\<rparr>)\<rparr>))
      else (dc_value (comps s c), s))"

fun is_computed :: "sub \<Rightarrow> bool" where
  "is_computed (DeferredSub d) = True"
| "is_computed (EffectSub e b) = b"

text \<open>
  Modelled from the spec: \<open>triggerRefValue\<close> of ref.ts is not among the sources. By the
  spec it runs \<open>triggerEffects\<close> on the computed's own Dep: the effects with \<open>computed\<close>
  set first, then the others. The effect of a deferred computed has a scheduler, which is
  called without argument; what another effect does when triggered is not followed, the
  trigger is recorded.
\<close>

fun trigger_subs :: "nat \<Rightarrow> sub list \<Rightarrow> 'v dstate \<Rightarrow> 'v dstate option" where
  "trigger_subs k [] s = Some s"
| "trigger_subs k (DeferredSub d # subs) s =
     (case deferred_scheduler k d False s of
        None \<Rightarrow> None
      | Some s' \<Rightarrow> trigger_subs k subs s')"
| "trigger_subs k (EffectSub e b # subs) s =
     trigger_subs k subs (s\<lparr>dlog := dlog s @ [EffectTriggered e]\<rparr>)"

definition triggerRefValue :: "nat \<Rightarrow> nat \<Rightarrow> 'v dstate \<Rightarrow> 'v dstate option" where
  "triggerRefValue k c s =
     (let s1 = s\<lparr>dlog := dlog s @ [RefTriggered c]\<rparr> in
      case dc_dep (comps s1 c) of
        None \<Rightarrow> Some s1
      | Some subs \<Rightarrow> trigger_subs k (filter is_computed subs @ filter (\<lambda>x. \<not> is_computed x) subs) s1)"

text \<open>A call of the closure that the scheduler enqueued.\<close>

fun run_callback :: "(nat \<Rightarrow> 'v dstate \<Rightarrow> 'v) \<Rightarrow> nat \<Rightarrow> 'v callback \<Rightarrow> 'v dstate \<Rightarrow> 'v dstate option" where
  "run_callback G k (Flush c valueToCompare) s =
     (case (if effect_active (comps s c)
            then (let (v, s1) = deferred_get G c s in
                  if v \<noteq> valueToCompare then triggerRefValue k c s1 else Some s1)
            else Some s) of
        None \<Rightarrow> None
      | Some s2 \<Rightarrow> Some (s2\<lparr>comps := (comps s2)(c := (comps s2 c)\<lparr>scheduled := False\<rparr>)\<rparr>))"

text \<open>
  The module's \<open>flush\<close>: the loop reads \<open>queue.length\<close> again at each turn, so it also
  runs the closures enqueued meanwhile, and need not end.
\<close>

fun flush_loop :: "(nat \<Rightarrow> 'v dstate \<Rightarrow> 'v) \<Rightarrow> nat \<Rightarrow> nat \<Rightarrow> 'v dstate \<Rightarrow> 'v dstate option" where
  "flush_loop G 0 i s = None"
| "flush_loop G (Suc k) i s =
     (if i < length (dqueue s)
      then (case run_callback G k (dqueue s ! i) s of
              None \<Rightarrow> None
            | Some s' \<Rightarrow> flush_loop G k (i + 1) s')
      else Some s)"

definition flush :: "(nat \<Rightarrow> 'v dstate \<Rightarrow> 'v) \<Rightarrow> nat \<Rightarrow> 'v dstate \<Rightarrow> 'v dstate option" where
  "flush G k s = map_option (\<lambda>s'. s'\<lparr>dqueue := [], queued := False\<rparr>) (flush_loop G k 0 s)"

section \<open>Notions used to state the results\<close>

subsection \<open>Notions used to state the results on trigger\<close>

text \<open>
  The decimal numeral of a natural number, and the key of the array index \<open>i\<close>.
\<close>

fun show_nat :: "nat \<Rightarrow> string" where
  "show_nat i =
     (if i < 10 then [char_of (48 + i)] else show_nat (i div 10) @ [char_of (48 + i mod 10)])"

definition index_key :: "nat \<Rightarrow> key" where
  "index_key i = KStr (show_nat i)"

text \<open>
  \<open>length_or_ge newLength k\<close>: the key is \<open>"length"\<close>, or a string that converts to a
  number \<open>>= newLength\<close>. \<open>is_symbol k\<close>: the key is a symbol.
\<close>

definition length_or_ge :: "jsnum \<Rightarrow> key \<Rightarrow> bool" where
  "length_or_ge newLength k =
     (case k of
        KSym _ \<Rightarrow> False
      | KStr str \<Rightarrow> str = ''length'' \<or> js_ge (toNumber str) newLength)"

fun is_symbol :: "key \<Rightarrow> bool" where
  "is_symbol (KSym _) = True"
| "is_symbol (KStr _) = False"

subsection \<open>Notions used to state the results on the dependency graph\<close>

text \<open>
  \<open>bidirectional\<close>: an effect has a Dep in its \<open>deps\<close> exactly when the Dep has the effect
  as a member.

  \<open>is_chain es p st\<close>: the chain of \<open>parent\<close> pointers that starts at \<open>p\<close> is the list
  \<open>st\<close> and ends with \<open>undefined\<close>; with \<open>p = activeEffect\<close>, \<open>st\<close> is the stack of the
  effects whose \<open>run()\<close> is in progress, innermost first.

  \<open>marked\<close>: an effect at depth \<open>k \<le> 30\<close> of the stack has the bit \<open>k\<close> set, in \<open>w\<close> or
  in \<open>n\<close>, on each of its \<open>deps\<close>.

  \<open>consistent st s\<close>: the state \<open>s\<close> is one the module keeps with the stack \<open>st\<close>: the
  graph is bidirectional, no \<open>deps\<close> list has a Dep twice, the stack is the parent chain,
  without repetition, \<open>effectTrackDepth\<close> is its height and \<open>trackOpBit\<close> the bit of that
  height, the stack is marked, the addresses from \<open>nextDep\<close> on hold no members, and
  those in \<open>targetMap\<close> are below \<open>nextDep\<close>.

  \<open>finalized\<close>: what one turn of the loop of \<open>finalizeDepMarkers\<close> makes of a Dep.
\<close>

definition bidirectional :: "state \<Rightarrow> bool" where
  "bidirectional s =
     (\<forall>e d. (d \<in> set (deps (effects s e))) = (e \<in> set (members (depStore s d))))"

fun is_chain :: "(nat \<Rightarrow> effect) \<Rightarrow> nat option \<Rightarrow> nat list \<Rightarrow> bool" where
  "is_chain es p [] = (p = None)"
| "is_chain es p (x # xs) = (p = Some x \<and> is_chain es (parent (es x)) xs)"

fun marked :: "(nat \<Rightarrow> effect) \<Rightarrow> (nat \<Rightarrow> dep) \<Rightarrow> nat list \<Rightarrow> bool" where
  "marked es ds [] = True"
| "marked es ds (x # xs) =
     ((length (x # xs) \<le> maxMarkerBits \<longrightarrow>
         (\<forall>d\<in>set (deps (es x)). bit (w (ds d) OR n (ds d)) (length (x # xs))))
      \<and> marked es ds xs)"

definition consistent :: "nat list \<Rightarrow> state \<Rightarrow> bool" where
  "consistent st s =
     (bidirectional s
      \<and> (\<forall>e. distinct (deps (effects s e)))
      \<and> is_chain (effects s) (activeEffect s) st
      \<and> distinct st
      \<and> effectTrackDepth s = length st
      \<and> trackOpBit s = shl1 (length st)
      \<and> marked (effects s) (depStore s) st
      \<and> (\<forall>d. nextDep s \<le> d \<longrightarrow> members (depStore s d) = [])
      \<and> (\<forall>t m k d. targetMap s t = Some m \<longrightarrow> (k, d) \<in> set m \<longrightarrow> d < nextDep s))"

definition finalized :: "32 word \<Rightarrow> nat \<Rightarrow> dep \<Rightarrow> dep" where
  "finalized tb e dp =
     (let dp1 = (if wasTracked tb dp \<and> \<not> newTracked tb dp
                 then dp\<lparr>members := set_delete e (members dp)\<rparr> else dp)
      in dp1\<lparr>w := w dp1 AND NOT tb, n := n dp1 AND NOT tb\<rparr>)"

subsection \<open>Example programs\<close>

text \<open>
  \<open>array_reader_program\<close>: every effect reads the properties \<open>findIndex\<close> and \<open>length\<close>
  of one array.
  \<open>nested_stop_program\<close>: the \<open>fn\<close> of effect 0 runs effect 1 and then reads the property
  \<open>k\<close> of an object; the \<open>fn\<close> of effect 1 stops effect 0.
\<close>

definition array_reader_program :: program where
  "array_reader_program r s =
     [Track (ArrayTarget 0) (KStr ''findIndex''), Track (ArrayTarget 0) (KStr ''length'')]"

definition nested_stop_program :: program where
  "nested_stop_program r s =
     (if r = 0 then [Run 1, Track (OtherTarget 0) (KStr ''k'')]
      else if r = 1 then [Stop 0]
      else [])"

subsection \<open>Example job tables\<close>

text \<open>
  \<open>cascade_jobs\<close>: job 0 has id 2 and enqueues job 1, which has id 1.
  \<open>ordering_jobs\<close>: job 1 has id 2, job 2 has id 1 and \<open>pre\<close>, job 3 has id 1; with
  \<open>quiet_bodies\<close> no job calls the scheduler.
\<close>

definition cascade_jobs :: jobs where
  "cascade_jobs j =
     (if j = 0 then \<lparr>job_id = Some 2, pre = False, job_active = True, job_allowRecurse = False\<rparr>
      else \<lparr>job_id = Some 1, pre = False, job_active = True, job_allowRecurse = False\<rparr>)"

definition cascade_bodies :: bodies where
  "cascade_bodies j s = (if j = 0 then [QueueJob 1] else [])"

definition ordering_jobs :: jobs where
  "ordering_jobs j =
     (if j = 1 then \<lparr>job_id = Some 2, pre = False, job_active = True, job_allowRecurse = False\<rparr>
      else if j = 2 then \<lparr>job_id = Some 1, pre = True, job_active = True, job_allowRecurse = False\<rparr>
      else \<lparr>job_id = Some 1, pre = False, job_active = True, job_allowRecurse = False\<rparr>)"

definition quiet_bodies :: bodies where
  "quiet_bodies j s = []"

subsection \<open>An example deferred computed\<close>

text \<open>
  A deferred computed with value 1, not dirty, whose Dep holds one ordinary effect (7);
  \<open>const_getter v\<close> is a getter that returns \<open>v\<close>.
\<close>

definition example_deferred :: "int deferred" where
  "example_deferred =
     \<lparr>dc_dep = Some [EffectSub 7 False], dc_value = 1, dc_dirty = False, effect_active = True,
      compareTarget = 0, hasCompareTarget = False, scheduled = False\<rparr>"

definition example_dstate :: "int dstate" where
  "example_dstate = \<lparr>comps = (\<lambda>c. example_deferred), dqueue = [], queued = False, dlog = []\<rparr>"

definition const_getter :: "int \<Rightarrow> nat \<Rightarrow> int dstate \<Rightarrow> int" where
  "const_getter v c s = v"

section \<open>Results\<close>

subsection \<open>A proof rule for the host program's calls\<close>

text \<open>
  A property \<open>Q st s\<close> of the state \<open>s\<close> and the stack \<open>st\<close> of effects whose \<open>run()\<close>
  is in progress (innermost first) holds after every call if the steps of the module
  keep it: the first half of \<open>run()\<close> pushes the effect, the second half pops it.
\<close>

declare run.simps [simp del] stop.simps [simp del] triggerEffect.simps [simp del]
  show_nat.simps [simp del] bit_length.simps [simp del]

lemma preserve:
  fixes Q :: "nat list \<Rightarrow> state \<Rightarrow> bool"
  assumes A_track: "\<And>st s t k. Q st s \<Longrightarrow> Q st (track t k s)"
    and A_pause: "\<And>st s. Q st s \<Longrightarrow> Q st (pauseTracking s)"
    and A_enable: "\<And>st s. Q st s \<Longrightarrow> Q st (enableTracking s)"
    and A_reset: "\<And>st s. Q st s \<Longrightarrow> Q st (resetTracking s)"
    and A_trace: "\<And>st s ev. Q st s \<Longrightarrow> Q st (s\<lparr>trace := trace s @ [ev]\<rparr>)"
    and A_try: "\<And>st s e. Q st s \<Longrightarrow> active (effects s e) \<Longrightarrow>
                  on_parent_chain (effects s) (activeEffect s) e = Some False \<Longrightarrow>
                  Q (e # st) (run_try e s)"
    and A_finally: "\<And>st s e. Q (e # st) s \<Longrightarrow> Q st (run_finally e s)"
    and A_defer: "\<And>st s e. Q st s \<Longrightarrow> activeEffect s = Some e \<Longrightarrow> Q st (stop_defer e s)"
    and A_cleanup: "\<And>st s e. Q st s \<Longrightarrow> activeEffect s \<noteq> Some e \<Longrightarrow> active (effects s e) \<Longrightarrow>
                  Q st (cleanupEffect e s)"
    and A_deact: "\<And>st s e. Q st s \<Longrightarrow> Q st (stop_deactivate e s)"
  shows "\<And>st r. Q st s \<Longrightarrow> exec P k cs s = Some r \<Longrightarrow> Q st (state_of r)"
    and "\<And>st r. Q st s \<Longrightarrow> call P k c s = Some r \<Longrightarrow> Q st (state_of r)"
    and "\<And>st r. Q st s \<Longrightarrow> run P k e s = Some r \<Longrightarrow> Q st (state_of r)"
    and "\<And>st r. Q st s \<Longrightarrow> stop P k e' s = Some r \<Longrightarrow> Q st (state_of r)"
    and "\<And>st r. Q st s \<Longrightarrow> triggerEffects_loop P k b es s = Some r \<Longrightarrow> Q st (state_of r)"
    and "\<And>st r. Q st s \<Longrightarrow> triggerEffect P k e'' s = Some r \<Longrightarrow> Q st (state_of r)"
proof (induction P k cs s and P k c s and P k e s and P k e' s and P k b es s and P k e'' s
       rule: exec_call_run_stop_triggerEffects_loop_triggerEffect.induct)
  case (1 P k s)
  then show ?case by auto
next
  case (2 P k c cs s)
  show ?case
  proof (cases "call P k c s")
    case None
    with 2(4) show ?thesis by simp
  next
    case (Some x)
    show ?thesis
    proof (cases x)
      case (Done s')
      with Some 2(1)[OF 2(3)] have "Q st s'" by simp
      moreover from 2(4) Some Done have "exec P k cs s' = Some r" by simp
      ultimately show ?thesis using 2(2)[OF Some Done] by blast
    next
      case (Threw s')
      with Some 2(4) have "r = Threw s'" by simp
      with Some Threw 2(1)[OF 2(3)] show ?thesis by simp
    qed
  qed
next
  case (3 P c s)
  then show ?case by simp
next
  case (4 P k c s)
  show ?case
  proof (cases c)
    case (Track t key)
    with 4 A_track show ?thesis by auto
  next
    case (Trigger t ty key nv)
    show ?thesis
    proof (cases "trigger_effects t ty key nv s")
      case (Inl err)
      with 4(5,6) Trigger show ?thesis by (cases err) auto
    next
      case (Inr b)
      show ?thesis
      proof (cases b)
        case None
        with 4(5,6) Trigger Inr show ?thesis by auto
      next
        case (Some effs)
        show ?thesis
        proof (cases "triggerEffects_loop P k True effs s")
          case None
          with 4(6) Trigger Inr Some show ?thesis by simp
        next
          case L: (Some x)
          show ?thesis
          proof (cases x)
            case (Done s')
            from 4(1)[OF Trigger Inr Some 4(5) L] Done have "Q st s'" by simp
            moreover from 4(6) Trigger Inr Some L Done
            have "triggerEffects_loop P k False effs s' = Some r" by simp
            ultimately show ?thesis using 4(2)[OF Trigger Inr Some L Done] by blast
          next
            case (Threw s')
            with 4(6) Trigger Inr Some L have "r = Threw s'" by simp
            with 4(1)[OF Trigger Inr Some 4(5) L] Threw show ?thesis by simp
          qed
        qed
      qed
    qed
  next
    case (Run e)
    with 4 show ?thesis by auto
  next
    case (Stop e)
    with 4 show ?thesis by auto
  next
    case PauseTracking
    with 4 A_pause show ?thesis by auto
  next
    case EnableTracking
    with 4 A_enable show ?thesis by auto
  next
    case ResetTracking
    with 4 A_reset show ?thesis by auto
  qed
next
  case (5 P k e s)
  show ?case
  proof (cases "active (effects s e)")
    case False
    with 5(5) have "exec P k (P (fn (effects s e)) s) (s\<lparr>trace := trace s @ [FnCalled e]\<rparr>) = Some r"
      by (simp add: run.simps)
    with 5(1)[OF False A_trace[OF 5(4)]] show ?thesis by blast
  next
    case True
    show ?thesis
    proof (cases "on_parent_chain (effects s) (activeEffect s) e")
      case None
      with 5(5) True show ?thesis by (simp add: run.simps)
    next
      case (Some x)
      show ?thesis
      proof (cases x)
        case True
        with 5(4,5) Some \<open>active (effects s e)\<close> show ?thesis by (auto simp add: run.simps)
      next
        case False
        then have xF: "x = False" by simp
        define s1 where "s1 = run_try e s"
        have Q1: "Q (e # st) s1"
          unfolding s1_def using A_try[OF 5(4) True] Some False by simp
        have nn: "\<not> \<not> active (effects s e)" using True by simp
        show ?thesis
        proof (cases "exec P k (P (fn (effects s1 e)) s1) (s1\<lparr>trace := trace s1 @ [FnCalled e]\<rparr>)")
          case None
          with 5(5) True Some False show ?thesis by (simp add: run.simps s1_def Let_def)
        next
          case B: (Some rb)
          have Q2: "Q (e # st) (state_of rb)"
            using 5(2)[OF nn Some xF s1_def A_trace[OF Q1] B] .
          define s2 where "s2 = run_finally e (state_of rb)"
          have Q3: "Q st s2" unfolding s2_def using A_finally[OF Q2] .
          show ?thesis
          proof (cases "deferStop (effects s2 e)")
            case D: False
            with 5(5) True Some False B have "state_of r = s2"
              by (auto simp add: run.simps s1_def[symmetric] s2_def[symmetric] Let_def split: outcome.splits)
            with Q3 show ?thesis by simp
          next
            case D: True
            show ?thesis
            proof (cases "stop P k e s2")
              case None
              with 5(5) True Some False B D show ?thesis
                by (simp add: run.simps s1_def[symmetric] s2_def[symmetric] Let_def)
            next
              case St: (Some rs)
              have "Q st (state_of rs)"
                using 5(3)[OF nn Some xF s1_def B s2_def D Q3 St] .
              moreover from 5(5) True Some False B D St have "state_of r = state_of rs"
                by (auto simp add: run.simps s1_def[symmetric] s2_def[symmetric] Let_def split: outcome.splits)
              ultimately show ?thesis by simp
            qed
          qed
        qed
      qed
    qed
  qed
next
  case (6 P k e s)
  show ?case
  proof (cases "activeEffect s = Some e")
    case True
    with 6(2,3) A_defer show ?thesis by (auto simp: stop.simps)
  next
    case NA: False
    show ?thesis
    proof (cases "active (effects s e)")
      case False
      with NA 6(2,3) show ?thesis by (auto simp: stop.simps)
    next
      case True
      define s1 where "s1 = cleanupEffect e s"
      have Q1: "Q st s1" unfolding s1_def using A_cleanup[OF 6(2) NA True] .
      show ?thesis
      proof (cases "onStop (effects s1 e)")
        case None
        with 6(3) NA True have "r = Done (stop_deactivate e s1)"
          by (simp add: stop.simps s1_def[symmetric] Let_def)
        with A_deact[OF Q1] show ?thesis by simp
      next
        case H: (Some h)
        show ?thesis
        proof (cases "exec P k (P h s1) (s1\<lparr>trace := trace s1 @ [OnStopCalled e]\<rparr>)")
          case None
          with 6(3) NA True H show ?thesis by (simp add: stop.simps s1_def[symmetric] Let_def)
        next
          case B: (Some rb)
          have Q2: "Q st (state_of rb)"
            using 6(1)[OF NA True s1_def H A_trace[OF Q1] B] .
          show ?thesis
          proof (cases rb)
            case (Done s2)
            with 6(3) NA True H B have "r = Done (stop_deactivate e s2)"
              by (simp add: stop.simps s1_def[symmetric] Let_def)
            with A_deact[of st s2 e] Q2 Done show ?thesis by simp
          next
            case (Threw s2)
            with 6(3) NA True H B have "r = Threw s2"
              by (simp add: stop.simps s1_def[symmetric] Let_def)
            with Q2 Threw show ?thesis by simp
          qed
        qed
      qed
    qed
  qed
next
  case (7 P k c s)
  then show ?case by auto
next
  case (8 P k c e es s)
  show ?case
  proof (cases "computed (effects s e) = c")
    case False
    with 8(5) have "triggerEffects_loop P k c es s = Some r" by simp
    with 8(3)[OF False 8(4)] show ?thesis by blast
  next
    case True
    show ?thesis
    proof (cases "triggerEffect P k e s")
      case None
      with 8(5) True show ?thesis by simp
    next
      case T: (Some x)
      have Qx: "Q st (state_of x)" using 8(1)[OF True 8(4) T] .
      show ?thesis
      proof (cases x)
        case (Done s')
        with 8(5) True T have "triggerEffects_loop P k c es s' = Some r" by simp
        with 8(2)[OF True T Done] Qx Done show ?thesis by simp
      next
        case (Threw s')
        with 8(5) True T have "r = Threw s'" by simp
        with Qx Threw show ?thesis by simp
      qed
    qed
  qed
next
  case (9 P k e s)
  show ?case
  proof (cases "triggerEffect_action (activeEffect s) e (effects s e)")
    case Skip
    with 9(3,4) show ?thesis by (auto simp add: triggerEffect.simps)
  next
    case (CallScheduler h)
    with 9(4) have "exec P k (P h s) (s\<lparr>trace := trace s @ [SchedulerCalled e]\<rparr>) = Some r"
      by (simp add: triggerEffect.simps)
    with 9(1)[OF CallScheduler A_trace[OF 9(3)]] show ?thesis by blast
  next
    case CallRun
    with 9(4) have "run P k e s = Some r" by (simp add: triggerEffect.simps)
    with 9(2)[OF CallRun 9(3)] show ?thesis by blast
  qed
qed


subsection \<open>triggerEffects and triggerEffect\<close>

lemma computed_trackEffects [simp]: "computed (effects (trackEffects e d s) x) = computed (effects s x)"
  by (simp add: trackEffects_def Let_def)

lemma computed_track [simp]: "computed (effects (track t k s) x) = computed (effects s x)"
  by (simp add: track_def Let_def split: option.splits)

lemma computed_cleanupEffect [simp]: "computed (effects (cleanupEffect e s) x) = computed (effects s x)"
  by (simp add: cleanupEffect_def)

lemma computed_initDepMarkers [simp]: "computed (effects (initDepMarkers e s) x) = computed (effects s x)"
  by (simp add: initDepMarkers_def)

lemma computed_finalizeDepMarkers [simp]:
  "computed (effects (finalizeDepMarkers e s) x) = computed (effects s x)"
  by (simp add: finalizeDepMarkers_def split: prod.splits)

lemma computed_run_try [simp]: "computed (effects (run_try e s) x) = computed (effects s x)"
  by (simp add: run_try_def Let_def)

lemma computed_run_finally [simp]: "computed (effects (run_finally e s) x) = computed (effects s x)"
  by (simp add: run_finally_def Let_def)

lemma computed_stable:
  assumes "triggerEffect P k e s = Some r"
  shows "computed (effects (state_of r) x) = computed (effects s x)"
proof -
  define Q where "Q = (\<lambda>(st :: nat list) (s' :: state). computed (effects s' x) = computed (effects s x))"
  have "Q [] (state_of r)"
  proof (rule preserve(6)[where Q = Q and st = "[]" and s = s, OF _ _ _ _ _ _ _ _ _ _ _ assms])
    show "Q [] s" by (simp add: Q_def)
  qed (auto simp add: Q_def pauseTracking_def enableTracking_def resetTracking_def
         stop_defer_def stop_deactivate_def)
  then show ?thesis by (simp add: Q_def)
qed

lemma loop_is_dispatch:
  "triggerEffects_loop P k c effs s =
     dispatch P k (filter (\<lambda>e. computed (effects s e) = c) effs) s"
proof (induction effs arbitrary: s)
  case Nil
  show ?case by simp
next
  case (Cons e es)
  show ?case
  proof (cases "computed (effects s e) = c")
    case False
    with Cons show ?thesis by simp
  next
    case True
    show ?thesis
    proof (cases "triggerEffect P k e s")
      case None
      with True show ?thesis by simp
    next
      case (Some r)
      show ?thesis
      proof (cases r)
        case (Threw s')
        with Some True show ?thesis by simp
      next
        case (Done s')
        have "\<And>x. computed (effects s' x) = computed (effects s x)"
          using computed_stable[OF Some] Done by simp
        then have "filter (\<lambda>e. computed (effects s' e) = c) es = filter (\<lambda>e. computed (effects s e) = c) es"
          by simp
        with Some Done True Cons[of s'] show ?thesis by simp
      qed
    qed
  qed
qed

lemma dispatch_append:
  "dispatch P k (xs @ ys) s =
     (case dispatch P k xs s of
        None \<Rightarrow> None
      | Some (Threw s') \<Rightarrow> Some (Threw s')
      | Some (Done s') \<Rightarrow> dispatch P k ys s')"
  by (induction xs arbitrary: s) (auto split: option.splits outcome.splits)

lemma dispatch_computed_stable:
  "dispatch P k xs s = Some r \<Longrightarrow> computed (effects (state_of r) x) = computed (effects s x)"
proof (induction xs arbitrary: s)
  case Nil
  then show ?case by auto
next
  case (Cons e es)
  then show ?case
    by (auto split: option.splits outcome.splits dest: computed_stable)
qed

lemma triggerEffects_is_dispatch:
  "triggerEffects P k effs s = dispatch P k (triggerEffects_order (effects s) effs) s"
proof (cases "dispatch P k (filter (\<lambda>e. computed (effects s e)) effs) s")
  case None
  then show ?thesis
    by (simp add: triggerEffects_def triggerEffects_order_def loop_is_dispatch dispatch_append)
next
  case (Some r)
  show ?thesis
  proof (cases r)
    case (Threw s')
    with Some show ?thesis
      by (simp add: triggerEffects_def triggerEffects_order_def loop_is_dispatch dispatch_append)
  next
    case (Done s')
    have "\<And>x. computed (effects s' x) = computed (effects s x)"
      using dispatch_computed_stable[OF Some] Done by simp
    with Some Done show ?thesis
      by (simp add: triggerEffects_def triggerEffects_order_def loop_is_dispatch dispatch_append)
  qed
qed

lemma order_index:
  "i < j \<Longrightarrow> j < length (filter p xs @ filter (\<lambda>x. \<not> p x) xs) \<Longrightarrow>
   p ((filter p xs @ filter (\<lambda>x. \<not> p x) xs) ! j) \<Longrightarrow> p ((filter p xs @ filter (\<lambda>x. \<not> p x) xs) ! i)"
proof -
  assume ij: "i < j" and j: "j < length (filter p xs @ filter (\<lambda>x. \<not> p x) xs)"
    and pj: "p ((filter p xs @ filter (\<lambda>x. \<not> p x) xs) ! j)"
  have "j < length (filter p xs)"
  proof (rule ccontr)
    assume "\<not> j < length (filter p xs)"
    then have ge: "length (filter p xs) \<le> j" by simp
    with j have "j - length (filter p xs) < length (filter (\<lambda>x. \<not> p x) xs)" by simp
    then have "(filter (\<lambda>x. \<not> p x) xs) ! (j - length (filter p xs)) \<in> set (filter (\<lambda>x. \<not> p x) xs)"
      by (rule nth_mem)
    with pj ge show False by (simp add: nth_append)
  qed
  with ij have "i < length (filter p xs)" by simp
  then have "(filter p xs) ! i \<in> set (filter p xs)" by (rule nth_mem)
  with \<open>i < length (filter p xs)\<close> show ?thesis by (simp add: nth_append)
qed

lemma count_list_partition:
  "count_list (filter p xs @ filter (\<lambda>x. \<not> p x) xs) e = count_list xs e"
  by (induction xs) auto

text \<open>
  C5: one call of \<open>triggerEffects\<close> on the array of a Dep calls \<open>triggerEffect\<close> on its
  effects in the order \<open>triggerEffects_order\<close>: the N effects with \<open>computed\<close> set, then
  the M others. Each effect of the array occurs as often as in the array, and no effect
  with \<open>computed\<close> set comes after one without.
\<close>

theorem C5_computed_first:
  "triggerEffects P k effs s = dispatch P k (triggerEffects_order (effects s) effs) s
   \<and> triggerEffects_order es effs =
       filter (\<lambda>e. computed (es e)) effs @ filter (\<lambda>e. \<not> computed (es e)) effs
   \<and> (\<forall>e. count_list (triggerEffects_order es effs) e = count_list effs e)
   \<and> (\<forall>i j. i < j \<and> j < length (triggerEffects_order es effs)
          \<and> computed (es (triggerEffects_order es effs ! j))
        \<longrightarrow> computed (es (triggerEffects_order es effs ! i)))"
proof (intro conjI allI impI)
  show "triggerEffects P k effs s = dispatch P k (triggerEffects_order (effects s) effs) s"
    by (rule triggerEffects_is_dispatch)
  show "triggerEffects_order es effs =
       filter (\<lambda>e. computed (es e)) effs @ filter (\<lambda>e. \<not> computed (es e)) effs"
    by (simp add: triggerEffects_order_def)
  show "count_list (triggerEffects_order es effs) e = count_list effs e" for e
    unfolding triggerEffects_order_def by (rule count_list_partition)
  show "computed (es (triggerEffects_order es effs ! i))"
    if "i < j \<and> j < length (triggerEffects_order es effs)
          \<and> computed (es (triggerEffects_order es effs ! j))" for i j
    using that order_index[of i j "\<lambda>e. computed (es e)" effs]
    unfolding triggerEffects_order_def by blast
qed

theorem C5_computed_first_witness:
  "triggerEffects_order ((effects initial_state)(2 := (new_effect 2 None)\<lparr>computed := True\<rparr>)) [1, 2, 3]
     = [2, 1, 3]
   \<and> computed (((effects initial_state)(2 := (new_effect 2 None)\<lparr>computed := True\<rparr>))
        (triggerEffects_order ((effects initial_state)(2 := (new_effect 2 None)\<lparr>computed := True\<rparr>))
           [1, 2, 3] ! 0))"
  using C5_computed_first[where es = "(effects initial_state)(2 := (new_effect 2 None)\<lparr>computed := True\<rparr>)"
      and effs = "[1, 2, 3]"]
  by (simp add: initial_state_def new_effect_def)

text \<open>
  C6: \<open>triggerEffect\<close> does nothing exactly when the effect is the active effect and its
  \<open>allowRecurse\<close> is not set; otherwise it calls the scheduler if the effect has one and
  \<open>run()\<close> if not.
\<close>

theorem C6_triggerEffect:
  "(triggerEffect_action ae e ef = Skip) = (ae = Some e \<and> \<not> allowRecurse ef)
   \<and> triggerEffect_action ae e ef =
       (if ae = Some e \<and> \<not> allowRecurse ef then Skip
        else case scheduler ef of Some r \<Rightarrow> CallScheduler r | None \<Rightarrow> CallRun)
   \<and> triggerEffect P k e s =
       (if activeEffect s = Some e \<and> \<not> allowRecurse (effects s e) then Some (Done s)
        else case scheduler (effects s e) of
               Some r \<Rightarrow> exec P k (P r s) (s\<lparr>trace := trace s @ [SchedulerCalled e]\<rparr>)
             | None \<Rightarrow> run P k e s)"
  by (auto simp: triggerEffect_action_def triggerEffect.simps split: option.splits)

theorem C6_triggerEffect_witness:
  "triggerEffect_action (Some 1) 1 (new_effect 0 None) = Skip
   \<and> triggerEffect_action None 1 (new_effect 0 None) = CallRun
   \<and> triggerEffect_action (Some 1) 1 ((new_effect 0 (Some 2))\<lparr>allowRecurse := True\<rparr>) = CallScheduler 2"
  using C6_triggerEffect[of "Some 1" 1 "new_effect 0 None"] C6_triggerEffect[of None 1 "new_effect 0 None"]
    C6_triggerEffect[of "Some 1" 1 "(new_effect 0 (Some 2))\<lparr>allowRecurse := True\<rparr>"]
  by (simp add: new_effect_def)

subsection \<open>trigger on the length of an array\<close>

lemma bit_length_le: "x < 2 ^ k \<Longrightarrow> bit_length x \<le> k"
proof (induction k arbitrary: x)
  case 0
  then show ?case by (subst bit_length.simps) simp
next
  case (Suc k)
  show ?case
  proof (cases "x \<le> 0")
    case True
    then show ?thesis by (subst bit_length.simps) simp
  next
    case False
    from Suc.prems have "x div 2 < 2 ^ k" by simp
    from Suc.IH[OF this] False show ?thesis by (subst bit_length.simps) simp
  qed
qed

lemma bit_length_one: "bit_length 1 = 1"
  by (subst bit_length.simps, simp, subst bit_length.simps, simp)

lemma bit_length_pos: "0 < x \<Longrightarrow> 0 < bit_length x"
  by (subst bit_length.simps) simp

lemma round_div_one: "round_div x 1 = x"
  by (simp add: round_div_def)

lemma to_double_int:
  assumes "0 \<le> i" and "i < 2 ^ 53"
  shows "to_double i 1 = Fin (of_int i)"
proof (cases "i = 0")
  case True
  then show ?thesis by (simp add: to_double_def)
next
  case False
  with assms have pos: "0 < i" by simp
  define e where "e = binary_exponent i 1"
  have bl: "bit_length i \<le> 53" using assms(2) by (rule bit_length_le)
  have bp: "0 < bit_length i" using pos by (rule bit_length_pos)
  have e_hi: "e \<le> 52" and e_lo: "- 1 \<le> e"
    using bl bp by (auto simp add: e_def binary_exponent_def bit_length_one Let_def)
  have m: "max e (- 1022) - 52 = e - 52" using e_lo by simp
  have val: "(of_int (i * 2 ^ nat (52 - e)) :: rat) * power_int 2 (e - 52) = of_int i"
  proof -
    have "power_int (2::rat) (e - 52) = inverse (2 ^ nat (52 - e))"
      using e_hi by (simp add: power_int_def power_one_over inverse_eq_divide)
    then show ?thesis by simp
  qed
  show ?thesis
  proof (cases "e = 52")
    case True
    with False show ?thesis
      by (simp add: to_double_def e_def[symmetric] Let_def round_div_one)
  next
    case F: False
    with e_hi have "e < 52" by simp
    with False val show ?thesis
      by (simp add: to_double_def e_def[symmetric] Let_def round_div_one m)
  qed
qed

lemma is_digit_char_of: "d < 10 \<Longrightarrow> is_digit (char_of (48 + d :: nat))"
  by (simp add: is_digit_def)

lemma show_nat_digits: "list_all is_digit (show_nat i)"
proof (induction i rule: show_nat.induct)
  case (1 i)
  show ?case
  proof (cases "i < 10")
    case True
    then show ?thesis by (subst show_nat.simps) (simp add: is_digit_char_of)
  next
    case False
    then show ?thesis using 1
      by (subst show_nat.simps) (simp add: is_digit_char_of)
  qed
qed

lemma show_nat_nonempty: "show_nat i \<noteq> []"
  by (subst show_nat.simps) simp

lemma digits_value_snoc: "digits_value (ds @ [c]) = 10 * digits_value ds + (of_char c - 48)"
  by (simp add: digits_value_def)

lemma of_char_digit_int: "d < 10 \<Longrightarrow> (of_char (char_of (48 + d :: nat)) :: int) = 48 + int d"
proof -
  assume d: "d < 10"
  have "(of_char (char_of (48 + d)) :: int) = int (of_char (char_of (48 + d)))"
    by (rule of_nat_of_char[symmetric])
  also have "\<dots> = int (48 + d)" using d by simp
  finally show ?thesis by simp
qed

lemma digits_value_show_nat: "digits_value (show_nat i) = int i"
proof (induction i rule: show_nat.induct)
  case (1 i)
  show ?case
  proof (cases "i < 10")
    case True
    then have "(of_char (char_of (48 + i)) :: int) = 48 + int i"
      by (rule of_char_digit_int)
    then show ?thesis by (subst show_nat.simps) (simp add: digits_value_def True)
  next
    case False
    have "(of_char (char_of (48 + i mod 10)) :: int) = 48 + int (i mod 10)"
      by (rule of_char_digit_int) simp
    then show ?thesis using 1 False
      by (subst show_nat.simps) (simp add: digits_value_snoc zmod_int zdiv_int)
  qed
qed

lemma digit_not_ws: "is_digit c \<Longrightarrow> \<not> is_ws c"
  by (auto simp: is_digit_def is_ws_def)

lemma trim_digits: "list_all is_digit ds \<Longrightarrow> trim ds = ds"
proof -
  assume a: "list_all is_digit ds"
  have 1: "dropWhile is_ws ds = ds"
    using a by (cases ds) (auto simp: digit_not_ws)
  have "list_all is_digit (rev ds)" using a by (simp add: list_all_iff)
  then have 2: "dropWhile is_ws (rev ds) = rev ds"
    by (cases "rev ds") (auto simp: digit_not_ws)
  show ?thesis by (simp add: trim_def 1 2)
qed

lemma digit_not_radix:
  assumes "is_digit x"
  shows "x \<noteq> CHR ''x''" "x \<noteq> CHR ''X''" "x \<noteq> CHR ''o''" "x \<noteq> CHR ''O''"
    "x \<noteq> CHR ''b''" "x \<noteq> CHR ''B''"
  using assms by (auto simp: is_digit_def)

lemma non_decimal_digits: "list_all is_digit ds \<Longrightarrow> non_decimal ds = None"
proof (cases ds)
  case Nil
  then show ?thesis by (simp add: non_decimal_def)
next
  case (Cons z r)
  assume a: "list_all is_digit ds"
  show ?thesis
  proof (cases r)
    case Nil
    with Cons show ?thesis by (simp add: non_decimal_def)
  next
    case C: (Cons x r')
    with Cons a have "is_digit x" by simp
    from digit_not_radix[OF this] Cons C show ?thesis by (simp add: non_decimal_def)
  qed
qed

lemma unsigned_decimal_digits:
  assumes "list_all is_digit ds" and "ds \<noteq> []"
  shows "unsigned_decimal ds = to_double (digits_value ds) 1"
proof -
  have t: "takeWhile is_digit ds = ds" "dropWhile is_digit ds = []"
    using assms(1) by (simp_all add: list_all_iff)
  have "ds \<noteq> ''Infinity''" using assms(1) by (auto simp: is_digit_def)
  then show ?thesis using assms(2)
    by (simp add: unsigned_decimal_def t Let_def exponent_part_def)
qed

lemma hd_digit: "list_all is_digit ds \<Longrightarrow> ds \<noteq> [] \<Longrightarrow> hd ds \<noteq> CHR ''+'' \<and> hd ds \<noteq> CHR ''-''"
  by (cases ds) (auto simp: is_digit_def)

lemma toNumber_digits:
  assumes "list_all is_digit ds" and "ds \<noteq> []"
  shows "toNumber ds = to_double (digits_value ds) 1"
  using assms hd_digit[OF assms]
  by (simp add: toNumber_def trim_digits non_decimal_digits unsigned_decimal_digits Let_def)

lemma toNumber_show_nat:
  assumes "i < 2 ^ 53"
  shows "toNumber (show_nat i) = Fin (of_nat i)"
proof -
  have "int i < 2 ^ 53" using assms by (metis of_nat_less_iff of_nat_numeral of_nat_power)
  then have "to_double (int i) 1 = Fin (of_int (int i))" by (intro to_double_int) simp_all
  then show ?thesis
    by (simp add: toNumber_digits[OF show_nat_digits show_nat_nonempty] digits_value_show_nat)
qed

lemma toNumber_length: "toNumber ''length'' = NaN"
  by code_simp

lemma toNumber_empty: "toNumber '''' = Fin 0"
  by (simp add: toNumber_def trim_def)

lemma length_deps_filter:
  "length_deps nl m =
     (if list_ex (\<lambda>kd. is_symbol (fst kd)) m then Inl TypeError
      else Inr (map (\<lambda>kd. Some (snd kd)) (filter (\<lambda>kd. length_or_ge nl (fst kd)) m)))"
proof (induction m)
  case Nil
  show ?case by simp
next
  case (Cons kd m)
  obtain k d where kd: "kd = (k, d)" by (cases kd)
  show ?case
  proof (cases k)
    case (KSym x)
    then show ?thesis by (simp add: kd)
  next
    case (KStr str)
    with Cons.IH show ?thesis by (simp add: kd length_or_ge_def)
  qed
qed

lemma isIntegerKey_empty: "\<not> isIntegerKey (KStr '''')"
  by (simp add: isIntegerKey_def)

lemma show_nat_not_length: "show_nat i \<noteq> ''length''"
proof
  assume "show_nat i = ''length''"
  with show_nat_digits[of i] show False by (simp add: is_digit_def)
qed

lemma length_or_ge_index:
  "i < 2 ^ 53 \<Longrightarrow> length_or_ge (Fin q) (index_key i) = (q \<le> of_nat i)"
  by (simp add: length_or_ge_def index_key_def toNumber_show_nat show_nat_not_length)

lemma length_or_ge_length: "length_or_ge nl (KStr ''length'')"
  by (simp add: length_or_ge_def)

lemma distinct_snd_key:
  "distinct (map snd m) \<Longrightarrow> (k1, d) \<in> set m \<Longrightarrow> (k2, d) \<in> set m \<Longrightarrow> k1 = k2"
proof -
  assume "distinct (map snd m)" and a: "(k1, d) \<in> set m" and b: "(k2, d) \<in> set m"
  then have "inj_on snd (set m)" by (simp add: distinct_map)
  from inj_onD[OF this _ a b] show ?thesis by simp
qed

lemma collected_iff:
  assumes "distinct (map snd m)" and "(k, d) \<in> set m"
  shows "(Some d \<in> set (map (\<lambda>kd. Some (snd kd)) (filter (\<lambda>kd. p (fst kd)) m))) = p k"
proof
  assume "Some d \<in> set (map (\<lambda>kd. Some (snd kd)) (filter (\<lambda>kd. p (fst kd)) m))"
  then obtain k' where "(k', d) \<in> set m" and "p k'" by auto
  with distinct_snd_key[OF assms(1) assms(2)] show "p k" by blast
next
  assume "p k"
  with assms(2) show "Some d \<in> set (map (\<lambda>kd. Some (snd kd)) (filter (\<lambda>kd. p (fst kd)) m))"
    by force
qed

text \<open>
  C7, as stated, fails: the comparison \<open>key >= newLength\<close> converts the key to a number,
  and the empty string converts to 0. With \<open>newValue = 0\<close> the Dep of the key \<open>""\<close>,
  which is neither \<open>"length"\<close> nor an index, is collected.
\<close>

theorem C7_counterexample:
  "collect_deps (ArrayTarget 0) SET (Some (KStr ''length'')) (Fin 0) [(KStr '''', 5)] = Inr [Some 5]
   \<and> KStr '''' \<noteq> KStr ''length'' \<and> \<not> isIntegerKey (KStr '''')"
  by (simp add: collect_deps_def toNumber_def trim_def isIntegerKey_def Let_def)

text \<open>
  C7, amended: for a trigger with key \<open>"length"\<close> on an array target, of any type but
  CLEAR, with any number as \<open>Number(newValue)\<close>:
  \<^item> if the map of the target holds a symbol key, the comparison throws a \<open>TypeError\<close>
    and nothing is triggered;
  \<^item> otherwise the Deps collected are exactly those whose key is \<open>"length"\<close> or converts
    to a number \<open>>= newValue\<close>, in the order of the map, and their effects are what
    \<open>triggerEffects\<close> receives;
  \<^item> so the Dep of \<open>"length"\<close> is collected, and the Dep of the index \<open>i\<close> is collected
    if and only if \<open>newValue \<le> i\<close>.
\<close>

theorem C7_length_trigger:
  "(ty \<noteq> CLEAR \<longrightarrow>
      collect_deps (ArrayTarget a) ty (Some (KStr ''length'')) nl m =
        (if list_ex (\<lambda>kd. is_symbol (fst kd)) m then Inl TypeError
         else Inr (map (\<lambda>kd. Some (snd kd)) (filter (\<lambda>kd. length_or_ge nl (fst kd)) m))))
   \<and> (ty \<noteq> CLEAR \<and> targetMap s (ArrayTarget a) = Some m \<longrightarrow>
        trigger_effects (ArrayTarget a) ty (Some (KStr ''length'')) nl s =
          (if list_ex (\<lambda>kd. is_symbol (fst kd)) m then Inl TypeError
           else Inr (effects_of_deps (depStore s)
                  (map (\<lambda>kd. Some (snd kd)) (filter (\<lambda>kd. length_or_ge nl (fst kd)) m)))))
   \<and> (\<forall>d. distinct (map snd m) \<and> (KStr ''length'', d) \<in> set m \<longrightarrow>
          Some d \<in> set (map (\<lambda>kd. Some (snd kd)) (filter (\<lambda>kd. length_or_ge nl (fst kd)) m)))
   \<and> (\<forall>i d q. distinct (map snd m) \<and> i < 2 ^ 53 \<and> (index_key i, d) \<in> set m \<longrightarrow>
          (Some d \<in> set (map (\<lambda>kd. Some (snd kd)) (filter (\<lambda>kd. length_or_ge (Fin q) (fst kd)) m)))
            = (q \<le> of_nat i))"
proof -
  have c: "collect_deps (ArrayTarget a) ty (Some (KStr ''length'')) nl m =
        (if list_ex (\<lambda>kd. is_symbol (fst kd)) m then Inl TypeError
         else Inr (map (\<lambda>kd. Some (snd kd)) (filter (\<lambda>kd. length_or_ge nl (fst kd)) m)))"
    if "ty \<noteq> CLEAR"
    using that by (simp add: collect_deps_def length_deps_filter)
  have t: "trigger_effects (ArrayTarget a) ty (Some (KStr ''length'')) nl s =
          (if list_ex (\<lambda>kd. is_symbol (fst kd)) m then Inl TypeError
           else Inr (effects_of_deps (depStore s)
                  (map (\<lambda>kd. Some (snd kd)) (filter (\<lambda>kd. length_or_ge nl (fst kd)) m))))"
    if "ty \<noteq> CLEAR \<and> targetMap s (ArrayTarget a) = Some m"
    using that c by (simp add: trigger_effects_def)
  have l: "Some d \<in> set (map (\<lambda>kd. Some (snd kd)) (filter (\<lambda>kd. length_or_ge nl (fst kd)) m))"
    if "distinct (map snd m) \<and> (KStr ''length'', d) \<in> set m" for d
    using collected_iff[OF conjunct1[OF that] conjunct2[OF that], of "length_or_ge nl"]
      length_or_ge_length by simp
  have i: "(Some d \<in> set (map (\<lambda>kd. Some (snd kd)) (filter (\<lambda>kd. length_or_ge (Fin q) (fst kd)) m)))
              = (q \<le> of_nat i)"
    if "distinct (map snd m) \<and> i < 2 ^ 53 \<and> (index_key i, d) \<in> set m" for i d q
  proof -
    from that have 1: "distinct (map snd m)" and 2: "i < 2 ^ 53" and 3: "(index_key i, d) \<in> set m"
      by simp_all
    from collected_iff[OF 1 3, of "length_or_ge (Fin q)"] length_or_ge_index[OF 2, of q]
    show ?thesis by simp
  qed
  from c t l i show ?thesis by blast
qed

theorem C7_length_trigger_witness:
  "collect_deps (ArrayTarget 0) SET (Some (KStr ''length'')) (Fin 2)
     [(KStr ''0'', 0), (KStr ''2'', 1), (KStr ''findIndex'', 3), (KStr ''length'', 2)]
     = Inr [Some 1, Some 2]
   \<and> trigger_effects (ArrayTarget 0) SET (Some (KStr ''length'')) (Fin 2)
        (initial_state\<lparr>targetMap := (\<lambda>t. Some
             [(KStr ''0'', 0), (KStr ''2'', 1), (KStr ''findIndex'', 3), (KStr ''length'', 2)]),
           depStore := (\<lambda>d. createDep [d + 10])\<rparr>)
     = Inr (Some [11, 12])
   \<and> collect_deps (ArrayTarget 0) SET (Some (KStr ''length'')) (Fin 2)
        [(KStr ''0'', 0), (KSym 7, 1), (KStr ''length'', 2)] = Inl TypeError"
proof -
  define m where "m = [(KStr ''0'', 0 :: nat), (KStr ''2'', 1), (KStr ''findIndex'', 3), (KStr ''length'', 2)]"
  define s where "s = initial_state\<lparr>targetMap := (\<lambda>t. Some m), depStore := (\<lambda>d. createDep [d + 10])\<rparr>"
  have f: "filter (\<lambda>kd. length_or_ge (Fin 2) (fst kd)) m = [(KStr ''2'', 1), (KStr ''length'', 2)]"
    unfolding m_def by code_simp
  have 1: "SET \<noteq> CLEAR" by simp
  have 2: "SET \<noteq> CLEAR \<and> targetMap s (ArrayTarget 0) = Some m" by (simp add: s_def)
  note T = C7_length_trigger[of SET 0 "Fin 2" m s]
  from T 1 have a: "collect_deps (ArrayTarget 0) SET (Some (KStr ''length'')) (Fin 2) m
      = Inr [Some 1, Some 2]"
    by (simp add: f) (simp add: m_def)
  from T 2 have b: "trigger_effects (ArrayTarget 0) SET (Some (KStr ''length'')) (Fin 2) s
      = Inr (Some [11, 12])"
    by (simp add: f) (simp add: m_def s_def effects_of_deps_def createDep_def)
  from C7_length_trigger[of SET 0 "Fin 2" "[(KStr ''0'', 0), (KSym 7, 1), (KStr ''length'', 2)]"]
  have c: "collect_deps (ArrayTarget 0) SET (Some (KStr ''length'')) (Fin 2)
        [(KStr ''0'', 0), (KSym 7, 1), (KStr ''length'', 2)] = Inl TypeError"
    by simp
  from a b c show ?thesis by (simp add: m_def s_def)
qed

subsection \<open>The tracking stack\<close>

lemma pause_enable_reset:
  "resetTracking (enableTracking (pauseTracking s)) =
     s\<lparr>trackStack := trackStack s @ [shouldTrack s], shouldTrack := False\<rparr>"
  by (simp add: pauseTracking_def enableTracking_def resetTracking_def butlast_append)

text \<open>
  C3, as stated, fails: the three calls push twice and pop once. Started with
  \<open>shouldTrack = true\<close> they end with \<open>shouldTrack = false\<close>.
\<close>

theorem C3_counterexample:
  "shouldTrack (resetTracking (enableTracking (pauseTracking initial_state)))
     \<noteq> shouldTrack initial_state"
  by (simp add: pauseTracking_def enableTracking_def resetTracking_def initial_state_def)

text \<open>
  C3, amended: after \<open>pauseTracking(); enableTracking(); resetTracking()\<close> the flag
  \<open>shouldTrack\<close> is false (the value \<open>pauseTracking\<close> set) whatever it was before, the
  prior value is left on \<open>trackStack\<close>, and one more \<open>resetTracking()\<close> restores both
  the flag and the stack.
\<close>

theorem C3_pause_enable_reset:
  "shouldTrack (resetTracking (enableTracking (pauseTracking s))) = False
   \<and> trackStack (resetTracking (enableTracking (pauseTracking s))) = trackStack s @ [shouldTrack s]
   \<and> resetTracking (resetTracking (enableTracking (pauseTracking s))) = s"
  by (simp add: pauseTracking_def enableTracking_def resetTracking_def butlast_append)

text \<open>
  C10: \<open>resetTracking()\<close> on an empty \<open>trackStack\<close> sets \<open>shouldTrack\<close> to true,
  whatever it was, and leaves the stack empty.
\<close>

theorem C10_reset_on_empty_stack:
  "shouldTrack (resetTracking (s\<lparr>trackStack := []\<rparr>)) = True
   \<and> trackStack (resetTracking (s\<lparr>trackStack := []\<rparr>)) = []"
  by (simp add: resetTracking_def)

section \<open>Results on the scheduler\<close>

declare flushPostFlushCbs.simps [simp del]

subsection \<open>A drain whose jobs leave the scheduler alone\<close>

lemma flushJobs_loop_quiet:
  assumes "\<And>j s'. j \<in> set (queue s) \<Longrightarrow> B j s' = []"
    and "length (queue s) - flushIndex s < k"
  shows "flushJobs_loop J B k s =
     Some (s\<lparr>flushIndex := max (flushIndex s) (length (queue s)),
             ran := ran s @ map JobRun (filter (\<lambda>j. job_active (J j)) (drop (flushIndex s) (queue s)))\<rparr>)"
  using assms
proof (induction k arbitrary: s)
  case 0
  then show ?case by simp
next
  case (Suc k)
  show ?case
  proof (cases "flushIndex s < length (queue s)")
    case False
    then show ?thesis by (simp add: max_def)
  next
    case True
    define jb where "jb = queue s ! flushIndex s"
    have jbin: "jb \<in> set (queue s)" using True by (simp add: jb_def)
    have body: "B jb s = []" using Suc.prems(1)[OF jbin] .
    define s1 where "s1 = (if job_active (J jb) then s\<lparr>ran := ran s @ [JobRun jb]\<rparr> else s)"
    have q1: "queue s1 = queue s" and f1: "flushIndex s1 = flushIndex s"
      by (simp_all add: s1_def)
    have step: "flushJobs_loop J B (Suc k) s = flushJobs_loop J B k (s1\<lparr>flushIndex := flushIndex s1 + 1\<rparr>)"
      using True body by (simp add: Let_def jb_def[symmetric] s1_def)
    have IH: "flushJobs_loop J B k (s1\<lparr>flushIndex := flushIndex s1 + 1\<rparr>) =
      Some ((s1\<lparr>flushIndex := flushIndex s1 + 1\<rparr>)\<lparr>flushIndex := max (flushIndex s1 + 1) (length (queue s1)),
             ran := ran s1 @ map JobRun (filter (\<lambda>j. job_active (J j)) (drop (flushIndex s1 + 1) (queue s1)))\<rparr>)"
      using Suc.IH[of "s1\<lparr>flushIndex := flushIndex s1 + 1\<rparr>"] Suc.prems q1 f1 True by simp
    have dr: "drop (flushIndex s) (queue s) = jb # drop (flushIndex s + 1) (queue s)"
      using True by (simp add: jb_def Cons_nth_drop_Suc)
    show ?thesis
      unfolding step IH using True by (simp add: q1 f1 dr max_def s1_def)
  qed
qed

lemma flushPostFlushCbs_loop_quiet:
  assumes "activePostFlushCbs s = Some act"
    and "\<And>j s'. j \<in> set act \<Longrightarrow> B j s' = []"
    and "length act - postFlushIndex s < k"
  shows "flushPostFlushCbs_loop J B k s =
     Some (s\<lparr>postFlushIndex := max (postFlushIndex s) (length act),
             ran := ran s @ map PostRun (drop (postFlushIndex s) act)\<rparr>)"
  using assms
proof (induction k arbitrary: s)
  case 0
  then show ?case by simp
next
  case (Suc k)
  show ?case
  proof (cases "postFlushIndex s < length act")
    case False
    then show ?thesis using Suc.prems(1) by (simp add: max_def)
  next
    case True
    define cb where "cb = act ! postFlushIndex s"
    have cbin: "cb \<in> set act" using True by (simp add: cb_def)
    have body: "B cb s = []" using Suc.prems(2)[OF cbin] .
    define s1 where "s1 = s\<lparr>ran := ran s @ [PostRun cb], postFlushIndex := postFlushIndex s + 1\<rparr>"
    have step: "flushPostFlushCbs_loop J B (Suc k) s = flushPostFlushCbs_loop J B k s1"
      using True body Suc.prems(1) by (simp add: Let_def cb_def[symmetric] s1_def)
    have IH: "flushPostFlushCbs_loop J B k s1 =
      Some (s1\<lparr>postFlushIndex := max (postFlushIndex s1) (length act),
             ran := ran s1 @ map PostRun (drop (postFlushIndex s1) act)\<rparr>)"
      using Suc.IH[of s1] Suc.prems True by (simp add: s1_def)
    have dr: "drop (postFlushIndex s) act = cb # drop (postFlushIndex s + 1) act"
      using True by (simp add: cb_def Cons_nth_drop_Suc)
    show ?thesis
      unfolding step IH using True by (simp add: dr max_def s1_def)
  qed
qed

lemma set_insert_sorted [simp]: "set (insert_sorted cmp x ys) = insert x (set ys)"
  by (induction ys) auto

lemma length_insert_sorted [simp]: "length (insert_sorted cmp x ys) = Suc (length ys)"
  by (induction ys) auto

lemma distinct_insert_sorted [simp]:
  "distinct (insert_sorted cmp x ys) = (x \<notin> set ys \<and> distinct ys)"
  by (induction ys) auto

lemma foldl_insert_sorted_set:
  "set (foldl (\<lambda>acc x. insert_sorted cmp x acc) acc xs) = set acc \<union> set xs"
  by (induction xs arbitrary: acc) auto

lemma foldl_insert_sorted_length:
  "length (foldl (\<lambda>acc x. insert_sorted cmp x acc) acc xs) = length acc + length xs"
  by (induction xs arbitrary: acc) auto

lemma foldl_insert_sorted_distinct:
  "distinct (foldl (\<lambda>acc x. insert_sorted cmp x acc) acc xs) =
     (distinct acc \<and> distinct xs \<and> set acc \<inter> set xs = {})"
  by (induction xs arbitrary: acc) auto

lemma set_sort_by [simp]: "set (sort_by cmp xs) = set xs"
  by (simp add: sort_by_def foldl_insert_sorted_set)

lemma length_sort_by [simp]: "length (sort_by cmp xs) = length xs"
  by (simp add: sort_by_def foldl_insert_sorted_length)

lemma distinct_sort_by [simp]: "distinct (sort_by cmp xs) = distinct xs"
  by (simp add: sort_by_def foldl_insert_sorted_distinct)

lemma sorted_insert_sorted:
  assumes irrefl: "\<And>a. \<not> cmp a a < 0"
    and trans: "\<And>a b c. cmp a b < 0 \<Longrightarrow> \<not> cmp c b < 0 \<Longrightarrow> \<not> cmp c a < 0"
    and "sorted_wrt (\<lambda>a b. \<not> cmp b a < 0) ys"
  shows "sorted_wrt (\<lambda>a b. \<not> cmp b a < 0) (insert_sorted cmp x ys)"
  using assms(3)
proof (induction ys)
  case Nil
  show ?case by simp
next
  case (Cons y ys)
  show ?case
  proof (cases "cmp x y < 0")
    case True
    have "\<not> cmp y x < 0" using trans[OF True irrefl] .
    moreover have "\<not> cmp z x < 0" if "z \<in> set ys" for z
    proof -
      from Cons.prems that have "\<not> cmp z y < 0" by simp
      from trans[OF True this] show ?thesis .
    qed
    ultimately show ?thesis using True Cons.prems by auto
  next
    case False
    with Cons show ?thesis by auto
  qed
qed

lemma sorted_foldl_insert_sorted:
  assumes irrefl: "\<And>a. \<not> cmp a a < 0"
    and trans: "\<And>a b c. cmp a b < 0 \<Longrightarrow> \<not> cmp c b < 0 \<Longrightarrow> \<not> cmp c a < 0"
  shows "sorted_wrt (\<lambda>a b. \<not> cmp b a < 0) acc \<Longrightarrow>
         sorted_wrt (\<lambda>a b. \<not> cmp b a < 0) (foldl (\<lambda>acc x. insert_sorted cmp x acc) acc xs)"
proof (induction xs arbitrary: acc)
  case Nil
  then show ?case by simp
next
  case (Cons x xs)
  have "sorted_wrt (\<lambda>a b. \<not> cmp b a < 0) (insert_sorted cmp x acc)"
  proof (rule sorted_insert_sorted)
    show "\<not> cmp a a < 0" for a by (rule irrefl)
    show "\<not> cmp c a < 0" if "cmp a b < 0" "\<not> cmp c b < 0" for a b c
      using that by (rule trans)
    show "sorted_wrt (\<lambda>a b. \<not> cmp b a < 0) acc" by (rule Cons.prems)
  qed
  from Cons.IH[OF this] show ?case by simp
qed

lemma comparator_irrefl: "\<not> comparator a a < 0"
  by (simp add: comparator_def split: option.splits)

lemma comparator_trans:
  "comparator a b < 0 \<Longrightarrow> \<not> comparator c b < 0 \<Longrightarrow> \<not> comparator c a < 0"
  by (auto simp: comparator_def sgn_if split: option.splits if_splits)

lemma sorted_queue:
  "sorted_wrt (\<lambda>a b. \<not> comparator (J b) (J a) < 0) (sort_by (\<lambda>a b. comparator (J a) (J b)) xs)"
  unfolding sort_by_def
proof (rule sorted_foldl_insert_sorted)
  show "\<not> comparator (J a) (J a) < 0" for a by (rule comparator_irrefl)
  show "\<not> comparator (J c) (J a) < 0"
    if "comparator (J a) (J b) < 0" "\<not> comparator (J c) (J b) < 0" for a b c
    using that by (rule comparator_trans)
  show "sorted_wrt (\<lambda>a b. \<not> comparator (J b) (J a) < 0) []" by simp
qed

lemma sorted_wrt_filter_local:
  "sorted_wrt R xs \<Longrightarrow> sorted_wrt R (filter p xs)"
  by (induction xs) auto

lemma no_inversion:
  assumes "sorted_wrt (\<lambda>a b. \<not> comparator (J b) (J a) < 0) xs"
    and "i < j" and "j < length xs"
    and "job_id (J (xs ! i)) = Some a" and "job_id (J (xs ! j)) = Some b"
  shows "a \<le> b \<and> (if a = b \<and> pre (J (xs ! j)) then pre (J (xs ! i)) else True)"
proof -
  from assms(1-3) have "\<not> comparator (J (xs ! j)) (J (xs ! i)) < 0"
    by (simp add: sorted_wrt_iff_nth_less)
  with assms(4,5) show ?thesis
    by (auto simp: comparator_def sgn_if split: if_splits)
qed

lemma flushPostFlushCbs_quiet:
  assumes quiet: "\<And>j s'. j \<in> set (pendingPostFlushCbs s) \<Longrightarrow> B j s' = []"
    and none: "activePostFlushCbs s = None"
    and fuel: "length (pendingPostFlushCbs s) < k"
  shows "\<exists>s'. flushPostFlushCbs J B k s = Some s'
           \<and> ran s' = ran s @ map PostRun
                 (sort_by (\<lambda>a b. post_comparator (J a) (J b)) (rev (remdups (rev (pendingPostFlushCbs s)))))
           \<and> queue s' = queue s \<and> pendingPostFlushCbs s' = [] \<and> activePostFlushCbs s' = None
           \<and> isFlushing s' = isFlushing s \<and> isFlushPending s' = isFlushPending s
           \<and> flushIndex s' = flushIndex s"
proof (cases "pendingPostFlushCbs s = []")
  case True
  then show ?thesis using none by (simp add: sort_by_def flushPostFlushCbs.simps)
next
  case False
  define act where "act = sort_by (\<lambda>a b. post_comparator (J a) (J b)) (rev (remdups (rev (pendingPostFlushCbs s))))"
  define s1 where "s1 = s\<lparr>pendingPostFlushCbs := [], activePostFlushCbs := Some act, postFlushIndex := 0\<rparr>"
  have a1: "activePostFlushCbs s1 = Some act" by (simp add: s1_def)
  have q1: "\<And>j s'. j \<in> set act \<Longrightarrow> B j s' = []" using quiet by (simp add: act_def)
  have "length act \<le> length (pendingPostFlushCbs s)"
    using length_remdups_leq[of "rev (pendingPostFlushCbs s)"] by (simp add: act_def)
  with fuel have f1: "length act - postFlushIndex s1 < k" by (simp add: s1_def)
  note L = flushPostFlushCbs_loop_quiet[of s1 act B k J, OF a1 q1 f1]
  have "flushPostFlushCbs J B k s =
          Some ((s1\<lparr>postFlushIndex := max (postFlushIndex s1) (length act),
                    ran := ran s1 @ map PostRun (drop (postFlushIndex s1) act)\<rparr>)
                 \<lparr>activePostFlushCbs := None, postFlushIndex := 0\<rparr>)"
    using False none L by (simp add: Let_def act_def[symmetric] s1_def[symmetric] flushPostFlushCbs.simps)
  then show ?thesis by (simp add: s1_def act_def)
qed

lemma flushJobs_quiet:
  assumes quiet: "\<And>j s'. j \<in> set (queue s) \<union> set (pendingPostFlushCbs s) \<Longrightarrow> B j s' = []"
    and none: "activePostFlushCbs s = None"
    and fuel: "length (queue s) + length (pendingPostFlushCbs s) + 1 < k"
  shows "\<exists>s'. flushJobs J B k s = Some s'
           \<and> ran s' = ran s
                @ map JobRun (filter (\<lambda>j. job_active (J j))
                     (sort_by (\<lambda>a b. comparator (J a) (J b)) (queue s)))
                @ map PostRun
                     (sort_by (\<lambda>a b. post_comparator (J a) (J b)) (rev (remdups (rev (pendingPostFlushCbs s)))))
           \<and> queue s' = [] \<and> pendingPostFlushCbs s' = []
           \<and> \<not> isFlushing s' \<and> \<not> isFlushPending s' \<and> flushIndex s' = 0"
proof -
  from fuel obtain k1 where k: "k = Suc k1" by (cases k) auto
  define s0 where "s0 = s\<lparr>isFlushPending := False, isFlushing := True,
                queue := sort_by (\<lambda>a b. comparator (J a) (J b)) (queue s), flushIndex := 0\<rparr>"
  have q0: "\<And>j s'. j \<in> set (queue s0) \<Longrightarrow> B j s' = []" using quiet by (simp add: s0_def)
  have f0: "length (queue s0) - flushIndex s0 < k1" using fuel k by (simp add: s0_def)
  define s1 where "s1 = s0\<lparr>flushIndex := max (flushIndex s0) (length (queue s0)),
             ran := ran s0 @ map JobRun (filter (\<lambda>j. job_active (J j)) (drop (flushIndex s0) (queue s0)))\<rparr>"
  have L: "flushJobs_loop J B k1 s0 = Some s1"
    unfolding s1_def by (rule flushJobs_loop_quiet[OF q0 f0])
  define s1' where "s1' = s1\<lparr>flushIndex := 0, queue := []\<rparr>"
  have qp: "\<And>j s'. j \<in> set (pendingPostFlushCbs s1') \<Longrightarrow> B j s' = []"
    using quiet by (simp add: s1'_def s1_def s0_def)
  have np: "activePostFlushCbs s1' = None" using none by (simp add: s1'_def s1_def s0_def)
  have fp: "length (pendingPostFlushCbs s1') < k1" using fuel k by (simp add: s1'_def s1_def s0_def)
  from flushPostFlushCbs_quiet[of s1' B k1 J, OF qp np fp]
  obtain s2 where P: "flushPostFlushCbs J B k1 s1' = Some s2"
    and r2: "ran s2 = ran s1' @ map PostRun
                 (sort_by (\<lambda>a b. post_comparator (J a) (J b)) (rev (remdups (rev (pendingPostFlushCbs s1')))))"
    and o2: "queue s2 = queue s1'" "pendingPostFlushCbs s2 = []" "isFlushPending s2 = isFlushPending s1'"
      "flushIndex s2 = flushIndex s1'"
    by blast
  have q1': "queue s1' = []" by (simp add: s1'_def)
  have "flushJobs J B k s = Some (s2\<lparr>isFlushing := False\<rparr>)"
    using L P o2 q1' by (simp add: k s0_def[symmetric] s1'_def[symmetric] Let_def)
  then show ?thesis using r2 o2 by (simp add: s1'_def s1_def s0_def)
qed




subsection \<open>queueJob\<close>

declare findInsertionIndex_loop.simps [simp del]

lemma findInsertionIndex_loop_ge: "start \<le> findInsertionIndex_loop J q i start end"
proof (induction J q i start "end" rule: findInsertionIndex_loop.induct)
  case (1 J q i start e)
  show ?case
  proof (cases "start < e")
    case False
    then show ?thesis by (subst findInsertionIndex_loop.simps) simp
  next
    case True
    show ?thesis
    proof (cases "getId_less (J (q ! ((start + e) div 2))) i")
      case L: True
      have "start \<le> (start + e) div 2" using True by simp
      with 1(1)[OF True refl L] have "start \<le> findInsertionIndex_loop J q i ((start + e) div 2 + 1) e"
        by simp
      then show ?thesis using True L by (subst findInsertionIndex_loop.simps) (simp add: Let_def)
    next
      case L: False
      from 1(2)[OF True refl L] show ?thesis
        using True L by (subst findInsertionIndex_loop.simps) (simp add: Let_def)
    qed
  qed
qed

lemma findInsertionIndex_ge: "flushIndex s + 1 \<le> findInsertionIndex J i s"
  unfolding findInsertionIndex_def by (rule findInsertionIndex_loop_ge)

lemma dedupe_start_le: "dedupe_start J j s \<le> flushIndex s + 1"
  by (simp add: dedupe_start_def)

lemma in_drop_splice:
  assumes "d \<le> p" and "d \<le> length q"
  shows "j \<in> set (drop d (splice_in p j q))"
proof -
  have "d \<le> length (take p q)" using assms by simp
  then have "drop d (take p q @ [j] @ drop p q) = drop d (take p q) @ [j] @ drop p q"
    by simp
  then show ?thesis by (simp add: splice_in_def)
qed

lemma queueFlush_fields [simp]:
  "queue (queueFlush s) = queue s" "flushIndex (queueFlush s) = flushIndex s"
  "isFlushing (queueFlush s) = isFlushing s"
  "pendingPostFlushCbs (queueFlush s) = pendingPostFlushCbs s"
  "activePostFlushCbs (queueFlush s) = activePostFlushCbs s"
  "ran (queueFlush s) = ran s"
  by (simp_all add: queueFlush_def)

lemma queueJob_fields [simp]:
  "flushIndex (queueJob J j s) = flushIndex s"
  "isFlushing (queueJob J j s) = isFlushing s"
  "pendingPostFlushCbs (queueJob J j s) = pendingPostFlushCbs s"
  "activePostFlushCbs (queueJob J j s) = activePostFlushCbs s"
  "ran (queueJob J j s) = ran s"
  by (simp_all add: queueJob_def split: option.splits)

lemma queueJob_noop:
  "array_includes (queue s) j (dedupe_start J j s) \<Longrightarrow> queueJob J j s = s"
proof -
  assume a: "array_includes (queue s) j (dedupe_start J j s)"
  then have "queue s \<noteq> []" by (auto simp: array_includes_def)
  with a show ?thesis by (simp add: queueJob_def)
qed

lemma queueJob_includes:
  assumes "dedupe_start J j s \<le> length (queue s)"
  shows "array_includes (queue (queueJob J j s)) j (dedupe_start J j s)"
proof (cases "array_includes (queue s) j (dedupe_start J j s)")
  case True
  then show ?thesis by (simp add: queueJob_noop)
next
  case False
  show ?thesis
  proof (cases "job_id (J j)")
    case None
    with False assms show ?thesis by (simp add: queueJob_def array_includes_def)
  next
    case (Some i)
    have "dedupe_start J j s \<le> findInsertionIndex J i s"
      using dedupe_start_le[of J j s] findInsertionIndex_ge[of s J i] by simp
    from in_drop_splice[OF this assms] Some False show ?thesis
      by (simp add: queueJob_def array_includes_def)
  qed
qed

lemma dedupe_start_queueJob [simp]: "dedupe_start J j (queueJob J j' s) = dedupe_start J j s"
  by (simp add: dedupe_start_def)

lemma queueJob_idem:
  assumes "dedupe_start J j s \<le> length (queue s)"
  shows "queueJob J j (queueJob J j s) = queueJob J j s"
  using queueJob_noop[of "queueJob J j s" j J] queueJob_includes[OF assms] by simp

lemma queueJob_set: "set (queue (queueJob J j s)) = insert j (set (queue s)) \<or> queueJob J j s = s"
  by (auto simp: queueJob_def splice_in_def split: option.splits dest: in_set_takeD in_set_dropD)
    (metis append_take_drop_id Un_iff set_append)+

lemma queueJob_distinct:
  assumes "distinct (queue s)" and "dedupe_start J j s = 0"
  shows "distinct (queue (queueJob J j s))"
proof (cases "array_includes (queue s) j (dedupe_start J j s)")
  case True
  then show ?thesis using assms by (simp add: queueJob_noop)
next
  case False
  then have notin: "j \<notin> set (queue s)" using assms(2) by (simp add: array_includes_def)
  have d: "distinct (take p (queue s) @ drop p (queue s))" for p using assms(1) by simp
  have "j \<notin> set (take p (queue s))" "j \<notin> set (drop p (queue s))" for p
    using notin by (auto dest: in_set_takeD in_set_dropD)
  moreover have "set (take p (queue s)) \<inter> set (drop p (queue s)) = {}" for p
    using set_take_disj_set_drop_if_distinct[OF assms(1), of p p] by simp
  ultimately show ?thesis using d False assms(1) notin
    by (auto simp: queueJob_def splice_in_def split: option.splits)
qed

lemma queueJob_length: "length (queue (queueJob J j s)) \<le> Suc (length (queue s))"
  by (auto simp add: queueJob_def splice_in_def min_def split: option.splits)

lemma count_list_JobRun [simp]: "count_list (map JobRun xs) (JobRun j) = count_list xs j"
  by (induction xs) auto

lemma count_list_PostRun [simp]: "count_list (map PostRun xs) (JobRun j) = 0"
  by (induction xs) auto

lemma count_list_distinct: "distinct xs \<Longrightarrow> x \<in> set xs \<Longrightarrow> count_list xs x = 1"
  by (induction xs) (auto simp: count_list_0_iff)

lemma drain_runs_once:
  assumes nf: "\<not> isFlushing s" and fi: "flushIndex s = 0" and dist: "distinct (queue s)"
    and act: "job_active (J j)"
    and quiet: "\<forall>x\<in>insert j (set (queue s)) \<union> set (pendingPostFlushCbs s). \<forall>s'. B x s' = []"
    and none: "activePostFlushCbs s = None"
    and fuel: "length (queue s) + length (pendingPostFlushCbs s) + 2 < k"
  shows "\<exists>s'. flushJobs J B k (queueJob J j (queueJob J j s)) = Some s'
             \<and> count_list (ran s') (JobRun j) = count_list (ran s) (JobRun j) + 1"
proof -
  have d0: "dedupe_start J j s = 0" using nf fi by (simp add: dedupe_start_def)
  define s1 where "s1 = queueJob J j s"
  have idem: "queueJob J j (queueJob J j s) = s1"
    unfolding s1_def by (rule queueJob_idem) (simp add: d0)
  have dist1: "distinct (queue s1)" unfolding s1_def by (rule queueJob_distinct[OF dist d0])
  have jin: "j \<in> set (queue s1)"
    using queueJob_includes[of J j s] d0 by (simp add: s1_def array_includes_def)
  have sub: "set (queue s1) \<subseteq> insert j (set (queue s))"
    using queueJob_set[of J j s] by (auto simp: s1_def)
  have q: "\<And>x s'. x \<in> set (queue s1) \<union> set (pendingPostFlushCbs s1) \<Longrightarrow> B x s' = []"
    using quiet sub by (auto simp: s1_def)
  have n1: "activePostFlushCbs s1 = None" using none by (simp add: s1_def)
  have f1: "length (queue s1) + length (pendingPostFlushCbs s1) + 1 < k"
    using fuel queueJob_length[of J j s] by (simp add: s1_def)
  define js where "js = filter (\<lambda>j. job_active (J j)) (sort_by (\<lambda>a b. comparator (J a) (J b)) (queue s1))"
  from flushJobs_quiet[of s1 B k J, OF q n1 f1]
  obtain s' where 1: "flushJobs J B k s1 = Some s'"
    and 2: "ran s' = ran s1 @ map JobRun js @ map PostRun
                     (sort_by (\<lambda>a b. post_comparator (J a) (J b)) (rev (remdups (rev (pendingPostFlushCbs s1)))))"
    unfolding js_def by blast
  have "distinct js" and "j \<in> set js" using dist1 jin act by (simp_all add: js_def)
  then have "count_list js j = 1" by (rule count_list_distinct)
  with 2 have "count_list (ran s') (JobRun j) = count_list (ran s) (JobRun j) + 1"
    by (simp add: s1_def)
  with 1 idem show ?thesis by simp
qed



section \<open>Results on the deferred computed\<close>

lemma scheduler_head_dlog [simp]: "dlog (scheduler_head c t s) = dlog s"
  by (simp add: scheduler_head_def module_scheduler_def Let_def)

lemma scheduler_head_True_dqueue [simp]: "dqueue (scheduler_head c True s) = dqueue s"
  by (simp add: scheduler_head_def Let_def)

lemma set_dirty_fields [simp]: "dlog (set_dirty c s) = dlog s" "dqueue (set_dirty c s) = dqueue s"
  by (simp_all add: set_dirty_def)

lemma scheduler_keeps_log:
  "deferred_scheduler k c t s = Some s' \<Longrightarrow> dlog s' = dlog s"
  "notify_computeds k subs s = Some s' \<Longrightarrow> dlog s' = dlog s"
proof (induction k c t s and k subs s arbitrary: s' and s' rule: deferred_scheduler_notify_computeds.induct)
  case (1 c computedTrigger s)
  then show ?case by simp
next
  case (2 k c computedTrigger s)
  show ?case
  proof (cases "dc_dep (comps s c)")
    case None
    with 2(2) show ?thesis by auto
  next
    case (Some subs)
    with 2(2) obtain s1 where n: "notify_computeds k subs (scheduler_head c computedTrigger s) = Some s1"
      and s': "s' = set_dirty c s1"
      by (auto split: option.splits)
    from 2(1)[OF Some n] s' show ?thesis by simp
  qed
next
  case (3 k s)
  then show ?case by simp
next
  case (4 k d subs s)
  from 4(3) obtain s1 where a: "deferred_scheduler k d True s = Some s1"
    and b: "notify_computeds k subs s1 = Some s'"
    by (auto split: option.splits)
  from 4(1)[OF a] 4(2)[OF a b] show ?case by simp
next
  case (5 k e b subs s)
  then show ?case by simp
qed

lemma computedTrigger_keeps_queue:
  "deferred_scheduler k c t s = Some s' \<Longrightarrow> t \<Longrightarrow> dqueue s' = dqueue s"
  "notify_computeds k subs s = Some s' \<Longrightarrow> dqueue s' = dqueue s"
proof (induction k c t s and k subs s arbitrary: s' and s' rule: deferred_scheduler_notify_computeds.induct)
  case (1 c computedTrigger s)
  then show ?case by simp
next
  case (2 k c computedTrigger s)
  show ?case
  proof (cases "dc_dep (comps s c)")
    case None
    with 2(2) show ?thesis by auto
  next
    case (Some subs)
    with 2(2) obtain s1 where n: "notify_computeds k subs (scheduler_head c computedTrigger s) = Some s1"
      and s': "s' = set_dirty c s1"
      by (auto split: option.splits)
    from 2(1)[OF Some n] s' 2(3) show ?thesis by simp
  qed
next
  case (3 k s)
  then show ?case by simp
next
  case (4 k d subs s)
  from 4(3) obtain s1 where a: "deferred_scheduler k d True s = Some s1"
    and b: "notify_computeds k subs s1 = Some s'"
    by (auto split: option.splits)
  from 4(1)[OF a] 4(2)[OF a b] show ?case by simp
next
  case (5 k e b subs s)
  then show ?case by simp
qed

lemma trigger_subs_log:
  "trigger_subs k subs s = Some s' \<Longrightarrow> \<exists>evs. dlog s' = dlog s @ evs"
proof (induction k subs s rule: trigger_subs.induct)
  case (1 k s)
  then show ?case by simp
next
  case (2 k d subs s)
  from 2(2) obtain s1 where a: "deferred_scheduler k d False s = Some s1"
    and b: "trigger_subs k subs s1 = Some s'"
    by (auto split: option.splits)
  from 2(1)[OF a b] scheduler_keeps_log(1)[OF a] show ?case by simp
next
  case (3 k e b subs s)
  from 3(2) have "trigger_subs k subs (s\<lparr>dlog := dlog s @ [EffectTriggered e]\<rparr>) = Some s'" by simp
  from 3(1)[OF this] show ?case by auto
qed

lemma triggerRefValue_log:
  assumes "triggerRefValue k c s = Some s'"
  shows "\<exists>evs. dlog s' = dlog s @ RefTriggered c # evs"
proof (cases "dc_dep (comps s c)")
  case None
  with assms show ?thesis by (auto simp add: triggerRefValue_def Let_def)
next
  case (Some subs)
  with assms have "trigger_subs k (filter is_computed subs @ filter (\<lambda>x. \<not> is_computed x) subs)
     (s\<lparr>dlog := dlog s @ [RefTriggered c]\<rparr>) = Some s'"
    by (simp add: triggerRefValue_def Let_def)
  from trigger_subs_log[OF this] show ?thesis by auto
qed

lemma deferred_get_log [simp]: "dlog (snd (deferred_get G c s)) = dlog s"
  by (simp add: deferred_get_def Let_def)

lemma scheduling_enqueues:
  assumes "dc_dep (comps s c) = Some subs" and "\<not> scheduled (comps s c)"
    and "deferred_scheduler k c False s = Some s1"
  shows "dqueue s1 = dqueue s @
           [Flush c (if hasCompareTarget (comps s c) then compareTarget (comps s c)
                     else dc_value (comps s c))]"
proof -
  from assms(3) obtain k' where k: "k = Suc k'" by (cases k) auto
  from assms(3) k assms(1) obtain s' where
    n: "notify_computeds k' subs (scheduler_head c False s) = Some s'" and s1: "s1 = set_dirty c s'"
    by (auto split: option.splits)
  from computedTrigger_keeps_queue(2)[OF n] s1 assms(2) show ?thesis
    by (simp add: scheduler_head_def module_scheduler_def Let_def)
qed

lemma callback_triggers:
  assumes "run_callback G k (Flush c v) s2 = Some s3"
  shows "(RefTriggered c \<in> set (drop (length (dlog s2)) (dlog s3)))
           = (effect_active (comps s2 c) \<and> fst (deferred_get G c s2) \<noteq> v)"
    and "fst (deferred_get G c s2) = v \<Longrightarrow> dlog s3 = dlog s2"
proof -
  show "(RefTriggered c \<in> set (drop (length (dlog s2)) (dlog s3)))
           = (effect_active (comps s2 c) \<and> fst (deferred_get G c s2) \<noteq> v)"
  proof (cases "effect_active (comps s2 c) \<and> fst (deferred_get G c s2) \<noteq> v")
    case True
    obtain x s1 where g: "deferred_get G c s2 = (x, s1)" by (cases "deferred_get G c s2")
    with True assms obtain s' where t: "triggerRefValue k c s1 = Some s'"
      and s3: "s3 = s'\<lparr>comps := (comps s')(c := (comps s' c)\<lparr>scheduled := False\<rparr>)\<rparr>"
      by (auto split: option.splits)
    from triggerRefValue_log[OF t] obtain evs where "dlog s' = dlog s1 @ RefTriggered c # evs" by blast
    moreover have "dlog s1 = dlog s2" using deferred_get_log[of G c s2] g by simp
    ultimately show ?thesis using True s3 by simp
  next
    case False
    obtain x s1 where g: "deferred_get G c s2 = (x, s1)" by (cases "deferred_get G c s2")
    have "dlog s1 = dlog s2" using deferred_get_log[of G c s2] g by simp
    with False assms g have "dlog s3 = dlog s2" by (auto split: option.splits if_splits)
    with False show ?thesis by simp
  qed
  show "dlog s3 = dlog s2" if "fst (deferred_get G c s2) = v"
  proof -
    obtain x s1 where g: "deferred_get G c s2 = (x, s1)" by (cases "deferred_get G c s2")
    have "dlog s1 = dlog s2" using deferred_get_log[of G c s2] g by simp
    with that assms g show ?thesis by (auto split: option.splits if_splits)
  qed
qed

lemma callback_quiet:
  assumes "\<not> (effect_active (comps s2 c) \<and> fst (deferred_get G c s2) \<noteq> v)"
  shows "\<exists>s3. run_callback G k (Flush c v) s2 = Some s3 \<and> dlog s3 = dlog s2"
proof -
  obtain x s1 where g: "deferred_get G c s2 = (x, s1)" by (cases "deferred_get G c s2")
  have "dlog s1 = dlog s2" using deferred_get_log[of G c s2] g by simp
  with assms g show ?thesis by auto
qed



section \<open>Results on the dependency graph\<close>

subsection \<open>The marker bits\<close>

lemma shl1_small: "k \<le> 30 \<Longrightarrow> shl1 k = 2 ^ k"
  by (simp add: shl1_def)

lemma bit_shl1: "k \<le> 30 \<Longrightarrow> bit (shl1 k) j = (j = k)"
  by (auto simp add: shl1_small bit_exp_iff possible_bit_def)

lemma and_shl1: "k \<le> 30 \<Longrightarrow> (x AND shl1 k) = (if bit x k then shl1 k else 0)" for x :: "32 word"
  by (rule bit_word_eqI) (auto simp add: bit_and_iff bit_shl1)

lemma sint_shl1: "k \<le> 30 \<Longrightarrow> sint (shl1 k) = 2 ^ k"
proof -
  assume k: "k \<le> 30"
  have "bit (2 ^ k :: 32 word) k" using k by (simp add: bit_exp_iff possible_bit_def)
  then have "(2 ^ k :: 32 word) \<noteq> 0" using k by auto
  then have "0 < (2 ^ k :: 32 word)" by (simp add: word_gt_0)
  then have u: "uint (2 ^ k :: 32 word) = 2 ^ k" by (rule uint_2p)
  have "(2::int) ^ k \<le> 2 ^ 30" using k by (intro power_increasing) auto
  then have lt: "(2::int) ^ k < 2 ^ 31" by simp
  have "(0::int) \<le> 2 ^ k" by simp
  moreover have "- (2 ^ 31) \<le> (0::int)" by simp
  ultimately have ge: "- (2 ^ 31) \<le> (2::int) ^ k" by (rule order_trans[rotated])
  have "signed_take_bit 31 ((2::int) ^ k) = 2 ^ k"
    by (rule signed_take_bit_int_eq_self[OF ge lt])
  then show ?thesis using k u by (simp add: shl1_small sint_uint)
qed

lemma tracked_bit: "k \<le> 30 \<Longrightarrow> (0 < sint (x AND shl1 k)) = bit x k" for x :: "32 word"
  by (simp add: and_shl1 sint_shl1)

lemma bit_or_shl1: "k \<le> 30 \<Longrightarrow> bit (x OR shl1 k) j = (bit x j \<or> j = k)" for x :: "32 word"
  by (simp add: bit_or_iff bit_shl1)

lemma bit_and_not_shl1: "k \<le> 30 \<Longrightarrow> bit (x AND NOT (shl1 k)) j = (bit x j \<and> j \<noteq> k)" for x :: "32 word"
  by (auto simp add: bit_and_iff bit_not_iff bit_shl1 dest: bit_imp_le_length)

subsection \<open>The steps of the module keep the state consistent\<close>

lemma cleanupEffect_loop_eq:
  "cleanupEffect_loop e ds st d =
     (if d \<in> set ds then (st d)\<lparr>members := set_delete e (members (st d))\<rparr> else st d)"
  by (induction ds arbitrary: st) (auto simp: set_delete_def)

lemma initDepMarkers_loop_eq:
  "initDepMarkers_loop tb ds st d =
     (if d \<in> set ds then (st d)\<lparr>w := w (st d) OR tb\<rparr> else st d)"
  by (induction ds arbitrary: st) (auto simp: or.assoc)

lemma finalizeDepMarkers_loop_eq:
  "distinct ds \<Longrightarrow>
   finalizeDepMarkers_loop tb e ds kept st =
     (kept @ filter (\<lambda>d. \<not> (wasTracked tb (st d) \<and> \<not> newTracked tb (st d))) ds,
      \<lambda>d. if d \<in> set ds then finalized tb e (st d) else st d)"
proof (induction ds arbitrary: kept st)
  case Nil
  show ?case by simp
next
  case (Cons d ds)
  from Cons.prems have d: "d \<notin> set ds" and ds: "distinct ds" by simp_all
  define drp where "drp = (wasTracked tb (st d) \<and> \<not> newTracked tb (st d))"
  define st' where "st' = st(d := finalized tb e (st d))"
  have step: "finalizeDepMarkers_loop tb e (d # ds) kept st =
      finalizeDepMarkers_loop tb e ds (if drp then kept else kept @ [d]) st'"
    by (simp add: Let_def finalized_def drp_def st'_def)
  have same: "filter (\<lambda>x. \<not> (wasTracked tb (st' x) \<and> \<not> newTracked tb (st' x))) ds
       = filter (\<lambda>x. \<not> (wasTracked tb (st x) \<and> \<not> newTracked tb (st x))) ds"
    using d by (intro filter_cong) (auto simp: st'_def)
  have store: "(\<lambda>x. if x \<in> set ds then finalized tb e (st' x) else st' x)
       = (\<lambda>x. if x \<in> set (d # ds) then finalized tb e (st x) else st x)"
    using d by (auto simp: st'_def fun_eq_iff)
  have kept: "(if drp then kept else kept @ [d])
        @ filter (\<lambda>x. \<not> (wasTracked tb (st x) \<and> \<not> newTracked tb (st x))) ds
      = kept @ filter (\<lambda>x. \<not> (wasTracked tb (st x) \<and> \<not> newTracked tb (st x))) (d # ds)"
    by (simp add: drp_def)
  show ?case
    unfolding step Cons.IH[OF ds] same store kept ..
qed

lemma is_chain_cong:
  "(\<And>x. x \<in> set st \<Longrightarrow> parent (es' x) = parent (es x)) \<Longrightarrow> is_chain es' p st = is_chain es p st"
  by (induction st arbitrary: p) auto

lemma marked_mono:
  assumes "marked es ds st"
    and "\<And>x d. x \<in> set st \<Longrightarrow> d \<in> set (deps (es' x)) \<Longrightarrow> d \<in> set (deps (es x))"
    and "\<And>x d j. x \<in> set st \<Longrightarrow> d \<in> set (deps (es' x)) \<Longrightarrow> 0 < j \<Longrightarrow> j \<le> length st \<Longrightarrow>
           bit (w (ds d) OR n (ds d)) j \<Longrightarrow> bit (w (ds' d) OR n (ds' d)) j"
  shows "marked es' ds' st"
  using assms
proof (induction st)
  case Nil
  show ?case by simp
next
  case (Cons x xs)
  have "marked es' ds' xs"
  proof (rule Cons.IH)
    show "marked es ds xs" using Cons.prems(1) by simp
    show "d \<in> set (deps (es y))" if "y \<in> set xs" "d \<in> set (deps (es' y))" for y d
      using Cons.prems(2)[of y d] that by simp
    show "bit (w (ds' d) OR n (ds' d)) j"
      if "y \<in> set xs" "d \<in> set (deps (es' y))" "0 < j" "j \<le> length xs" "bit (w (ds d) OR n (ds d)) j"
      for y d j
      using Cons.prems(3)[of y d j] that by simp
  qed
  moreover have "bit (w (ds' d) OR n (ds' d)) (length (x # xs))"
    if "length (x # xs) \<le> maxMarkerBits" "d \<in> set (deps (es' x))" for d
  proof -
    from Cons.prems(2)[of x d] that have "d \<in> set (deps (es x))" by simp
    with Cons.prems(1) that have "bit (w (ds d) OR n (ds d)) (length (x # xs))" by simp
    with Cons.prems(3)[of x d "length (x # xs)"] that show ?thesis by simp
  qed
  ultimately show ?case by simp
qed

lemma on_parent_chain_is_chain:
  "is_chain es p st \<Longrightarrow> on_parent_chain es p e = Some (e \<in> set st)"
proof (induction st arbitrary: p)
  case Nil
  then show ?case by (subst on_parent_chain.simps) simp
next
  case (Cons x xs)
  then show ?case by (subst on_parent_chain.simps) auto
qed

lemma cleanupEffect_fields [simp]:
  "effects (cleanupEffect e s) = (effects s)(e := (effects s e)\<lparr>deps := []\<rparr>)"
  "depStore (cleanupEffect e s) d =
     (if d \<in> set (deps (effects s e))
      then (depStore s d)\<lparr>members := set_delete e (members (depStore s d))\<rparr> else depStore s d)"
  "nextDep (cleanupEffect e s) = nextDep s"
  "targetMap (cleanupEffect e s) = targetMap s"
  "activeEffect (cleanupEffect e s) = activeEffect s"
  "shouldTrack (cleanupEffect e s) = shouldTrack s"
  "trackStack (cleanupEffect e s) = trackStack s"
  "effectTrackDepth (cleanupEffect e s) = effectTrackDepth s"
  "trackOpBit (cleanupEffect e s) = trackOpBit s"
  "trace (cleanupEffect e s) = trace s"
  by (simp_all add: cleanupEffect_def cleanupEffect_loop_eq)

lemma bidirectional_cleanupEffect:
  assumes "bidirectional s"
  shows "bidirectional (cleanupEffect e s)"
  unfolding bidirectional_def
proof (intro allI)
  fix e' d
  show "(d \<in> set (deps (effects (cleanupEffect e s) e')))
          = (e' \<in> set (members (depStore (cleanupEffect e s) d)))"
    using assms[unfolded bidirectional_def, rule_format, of d e']
      assms[unfolded bidirectional_def, rule_format, of d e]
    by (auto simp: set_delete_def)
qed

lemma consistentI:
  assumes "bidirectional s"
    and "\<And>e. distinct (deps (effects s e))"
    and "is_chain (effects s) (activeEffect s) st"
    and "distinct st"
    and "effectTrackDepth s = length st"
    and "trackOpBit s = shl1 (length st)"
    and "marked (effects s) (depStore s) st"
    and "\<And>d. nextDep s \<le> d \<Longrightarrow> members (depStore s d) = []"
    and "\<And>t m k d. targetMap s t = Some m \<Longrightarrow> (k, d) \<in> set m \<Longrightarrow> d < nextDep s"
  shows "consistent st s"
  unfolding consistent_def using assms by blast

lemma consistentD:
  assumes "consistent st s"
  shows "bidirectional s"
    and "distinct (deps (effects s e))"
    and "is_chain (effects s) (activeEffect s) st"
    and "distinct st"
    and "effectTrackDepth s = length st"
    and "trackOpBit s = shl1 (length st)"
    and "marked (effects s) (depStore s) st"
    and "nextDep s \<le> d \<Longrightarrow> members (depStore s d) = []"
    and "targetMap s t = Some m \<Longrightarrow> (k, d) \<in> set m \<Longrightarrow> d < nextDep s"
  using assms unfolding consistent_def by blast+

lemma bidirectionalD:
  "bidirectional s \<Longrightarrow> (d \<in> set (deps (effects s e))) = (e \<in> set (members (depStore s d)))"
  by (simp add: bidirectional_def)

lemma consistent_cleanupEffect:
  assumes "consistent st s"
  shows "consistent st (cleanupEffect e s)"
proof (rule consistentI)
  note D = consistentD[OF assms]
  show "bidirectional (cleanupEffect e s)" by (rule bidirectional_cleanupEffect[OF D(1)])
  show "distinct (deps (effects (cleanupEffect e s) x))" for x using D(2)[of x] by simp
  have "is_chain (effects (cleanupEffect e s)) (activeEffect s) st
          = is_chain (effects s) (activeEffect s) st"
    by (rule is_chain_cong) simp
  then show "is_chain (effects (cleanupEffect e s)) (activeEffect (cleanupEffect e s)) st"
    using D(3) by simp
  show "distinct st" by (rule D(4))
  show "effectTrackDepth (cleanupEffect e s) = length st" using D(5) by simp
  show "trackOpBit (cleanupEffect e s) = shl1 (length st)" using D(6) by simp
  show "marked (effects (cleanupEffect e s)) (depStore (cleanupEffect e s)) st"
  proof (rule marked_mono[OF D(7)])
    show "d \<in> set (deps (effects s x))" if "d \<in> set (deps (effects (cleanupEffect e s) x))" for x d
      using that by (cases "x = e") simp_all
    show "bit (w (depStore (cleanupEffect e s) d) OR n (depStore (cleanupEffect e s) d)) j"
      if "bit (w (depStore s d) OR n (depStore s d)) j" for d j
      using that by simp
  qed
  show "members (depStore (cleanupEffect e s) d) = []" if "nextDep (cleanupEffect e s) \<le> d" for d
    using D(8)[of d] that by (simp add: set_delete_def)
  show "d < nextDep (cleanupEffect e s)"
    if "targetMap (cleanupEffect e s) t = Some m" "(k, d) \<in> set m" for t m k d
    using D(9)[of t m k d] that by simp
qed

lemma consistent_flags:
  "consistent st s \<Longrightarrow> consistent st (pauseTracking s)"
  "consistent st s \<Longrightarrow> consistent st (enableTracking s)"
  "consistent st s \<Longrightarrow> consistent st (resetTracking s)"
  "consistent st s \<Longrightarrow> consistent st (s\<lparr>trace := tr\<rparr>)"
  by (simp_all add: consistent_def bidirectional_def pauseTracking_def enableTracking_def
        resetTracking_def)

lemma marked_same:
  "(\<And>x. x \<in> set st \<Longrightarrow> deps (es' x) = deps (es x)) \<Longrightarrow> marked es' ds st = marked es ds st"
  by (induction st) auto

lemma consistent_effect_flags:
  assumes "consistent st s"
    and "\<And>x. deps (es' x) = deps (effects s x)"
    and "\<And>x. parent (es' x) = parent (effects s x)"
  shows "consistent st (s\<lparr>effects := es'\<rparr>)"
proof (rule consistentI)
  note D = consistentD[OF assms(1)]
  show "bidirectional (s\<lparr>effects := es'\<rparr>)"
    using D(1) by (simp add: bidirectional_def assms(2))
  show "distinct (deps (effects (s\<lparr>effects := es'\<rparr>) x))" for x using D(2)[of x] by (simp add: assms(2))
  have "is_chain es' (activeEffect s) st = is_chain (effects s) (activeEffect s) st"
    by (rule is_chain_cong) (simp add: assms(3))
  then show "is_chain (effects (s\<lparr>effects := es'\<rparr>)) (activeEffect (s\<lparr>effects := es'\<rparr>)) st"
    using D(3) by simp
  show "distinct st" by (rule D(4))
  show "effectTrackDepth (s\<lparr>effects := es'\<rparr>) = length st" using D(5) by simp
  show "trackOpBit (s\<lparr>effects := es'\<rparr>) = shl1 (length st)" using D(6) by simp
  have "marked es' (depStore s) st = marked (effects s) (depStore s) st"
    by (rule marked_same) (simp add: assms(2))
  then show "marked (effects (s\<lparr>effects := es'\<rparr>)) (depStore (s\<lparr>effects := es'\<rparr>)) st"
    using D(7) by simp
  show "members (depStore (s\<lparr>effects := es'\<rparr>) d) = []" if "nextDep (s\<lparr>effects := es'\<rparr>) \<le> d" for d
    using D(8)[of d] that by simp
  show "d < nextDep (s\<lparr>effects := es'\<rparr>)"
    if "targetMap (s\<lparr>effects := es'\<rparr>) t = Some m" "(k, d) \<in> set m" for t m k d
    using D(9)[of t m k d] that by simp
qed

lemma consistent_stop_defer: "consistent st s \<Longrightarrow> consistent st (stop_defer e s)"
  unfolding stop_defer_def by (rule consistent_effect_flags) simp_all

lemma consistent_stop_deactivate: "consistent st s \<Longrightarrow> consistent st (stop_deactivate e s)"
  unfolding stop_deactivate_def by (rule consistent_effect_flags) simp_all

lemma consistent_bits:
  assumes "consistent st s"
    and mem: "members dp' = members (depStore s d)"
    and bits: "\<And>j. bit (w (depStore s d) OR n (depStore s d)) j \<Longrightarrow> bit (w dp' OR n dp') j"
  shows "consistent st (s\<lparr>depStore := (depStore s)(d := dp')\<rparr>)"
proof (rule consistentI)
  note D = consistentD[OF assms(1)]
  let ?s = "s\<lparr>depStore := (depStore s)(d := dp')\<rparr>"
  have m: "members (depStore ?s x) = members (depStore s x)" for x by (simp add: mem)
  show "bidirectional ?s" using D(1) unfolding bidirectional_def by (simp only: m) simp
  show "distinct (deps (effects ?s x))" for x using D(2)[of x] by simp
  show "is_chain (effects ?s) (activeEffect ?s) st" using D(3) by simp
  show "distinct st" by (rule D(4))
  show "effectTrackDepth ?s = length st" using D(5) by simp
  show "trackOpBit ?s = shl1 (length st)" using D(6) by simp
  show "marked (effects ?s) (depStore ?s) st"
  proof (rule marked_mono[OF D(7)])
    show "x \<in> set (deps (effects s y))" if "x \<in> set (deps (effects ?s y))" for x y
      using that by simp
    show "bit (w (depStore ?s x) OR n (depStore ?s x)) j"
      if "bit (w (depStore s x) OR n (depStore s x)) j" for x j
      using that bits[of j] by (cases "x = d") simp_all
  qed
  show "members (depStore ?s x) = []" if "nextDep ?s \<le> x" for x
    using D(8)[of x] that by (simp only: m) simp
  show "x < nextDep ?s" if "targetMap ?s t = Some m" "(k, x) \<in> set m" for t m k x
    using D(9)[of t m k x] that by simp
qed

lemma consistent_subscribe:
  assumes c: "consistent (e # xs) s"
    and notin: "d \<notin> set (deps (effects s e))"
    and old: "d < nextDep s"
    and bit: "length (e # xs) \<le> maxMarkerBits \<Longrightarrow>
                bit (w (depStore s d) OR n (depStore s d)) (length (e # xs))"
  shows "consistent (e # xs)
           (s\<lparr>depStore := (depStore s)(d := (depStore s d)\<lparr>members := set_add e (members (depStore s d))\<rparr>),
              effects := (effects s)(e := (effects s e)\<lparr>deps := deps (effects s e) @ [d]\<rparr>)\<rparr>)"
    (is "consistent _ ?s")
proof (rule consistentI)
  note D = consistentD[OF c]
  from D(4) have exs: "e \<notin> set xs" by simp
  show "bidirectional ?s"
    unfolding bidirectional_def
  proof (intro allI)
    fix e' d'
    show "(d' \<in> set (deps (effects ?s e'))) = (e' \<in> set (members (depStore ?s d')))"
      using bidirectionalD[OF D(1), of d' e']
      by (cases "e' = e"; cases "d' = d") (auto simp: set_add_def)
  qed
  show "distinct (deps (effects ?s x))" for x using D(2)[of x] notin by (cases "x = e") simp_all
  have "is_chain (effects ?s) (activeEffect s) (e # xs) = is_chain (effects s) (activeEffect s) (e # xs)"
    by (rule is_chain_cong) simp
  then show "is_chain (effects ?s) (activeEffect ?s) (e # xs)" using D(3) by simp
  show "distinct (e # xs)" by (rule D(4))
  show "effectTrackDepth ?s = length (e # xs)" using D(5) by simp
  show "trackOpBit ?s = shl1 (length (e # xs))" using D(6) by simp
  have mx: "marked (effects ?s) (depStore ?s) xs"
  proof (rule marked_mono[where es = "effects s" and ds = "depStore s"])
    show "marked (effects s) (depStore s) xs" using D(7) by simp
    show "x \<in> set (deps (effects s y))" if "y \<in> set xs" "x \<in> set (deps (effects ?s y))" for x y
      using that exs by (cases "y = e") simp_all
    show "bit (w (depStore ?s x) OR n (depStore ?s x)) j"
      if "bit (w (depStore s x) OR n (depStore s x)) j" for x j
      using that by (cases "x = d") simp_all
  qed
  have top: "bit (w (depStore ?s x) OR n (depStore ?s x)) (length (e # xs))"
    if le: "length (e # xs) \<le> maxMarkerBits" and x: "x \<in> set (deps (effects ?s e))" for x
  proof (cases "x = d")
    case True
    with bit[OF le] show ?thesis by simp
  next
    case False
    with x have "x \<in> set (deps (effects s e))" by simp
    with D(7) le have "bit (w (depStore s x) OR n (depStore s x)) (length (e # xs))" by simp
    with False show ?thesis by simp
  qed
  show "marked (effects ?s) (depStore ?s) (e # xs)"
    using mx top by (simp del: fun_upd_apply)
  show "members (depStore ?s x) = []" if "nextDep ?s \<le> x" for x
    using D(8)[of x] that old by simp
  show "x < nextDep ?s" if "targetMap ?s t = Some m" "(k, x) \<in> set m" for t m k x
    using D(9)[of t m k x] that by simp
qed

lemma store_upd_same: "s\<lparr>depStore := (depStore s)(d := depStore s d)\<rparr> = s"
  by simp

lemma consistent_trackEffects:
  assumes c: "consistent (e # xs) s" and old: "d < nextDep s"
  shows "consistent (e # xs) (trackEffects e d s)"
proof -
  note D = consistentD[OF c]
  define k where "k = length (e # xs)"
  define dp where "dp = depStore s d"
  have depth: "effectTrackDepth s = k" and tb: "trackOpBit s = shl1 k"
    using D(5,6) by (simp_all add: k_def)
  show ?thesis
  proof (cases "k \<le> maxMarkerBits")
    case marker: True
    then have k30: "k \<le> 30" by (simp add: maxMarkerBits_def)
    have new: "newTracked (shl1 k) x = bit (n x) k" for x
      by (simp add: newTracked_def tracked_bit[OF k30])
    have was: "wasTracked (shl1 k) x = bit (w x) k" for x
      by (simp add: wasTracked_def tracked_bit[OF k30])
    show ?thesis
    proof (cases "bit (n dp) k")
      case True
      then have "trackEffects e d s = s"
        using marker by (simp add: trackEffects_def Let_def depth tb new dp_def[symmetric])
           (simp add: dp_def)
      with c show ?thesis by simp
    next
      case nonew: False
      define dp1 where "dp1 = dp\<lparr>n := n dp OR shl1 k\<rparr>"
      define s1 where "s1 = s\<lparr>depStore := (depStore s)(d := dp1)\<rparr>"
      have c1: "consistent (e # xs) s1"
        unfolding s1_def
        by (rule consistent_bits[OF c]) (auto simp: dp1_def dp_def bit_or_iff)
      show ?thesis
      proof (cases "bit (w dp) k")
        case True
        then have "trackEffects e d s = s1"
          using marker nonew
          by (simp add: trackEffects_def Let_def depth tb new was dp_def[symmetric]
                dp1_def[symmetric] s1_def) (simp add: dp1_def)
        with c1 show ?thesis by simp
      next
        case nowas: False
        have notin: "d \<notin> set (deps (effects s1 e))"
        proof
          assume "d \<in> set (deps (effects s1 e))"
          then have "d \<in> set (deps (effects s e))" by (simp add: s1_def)
          with D(7) marker have "bit (w (depStore s d) OR n (depStore s d)) k"
            by (simp add: k_def)
          with nonew nowas show False by (simp add: dp_def bit_or_iff)
        qed
        have old1: "d < nextDep s1" using old by (simp add: s1_def)
        have "bit (w (depStore s1 d) OR n (depStore s1 d)) k"
          using k30 by (simp add: s1_def dp1_def bit_or_iff bit_shl1)
        then have b1: "bit (w (depStore s1 d) OR n (depStore s1 d)) (length (e # xs))"
          by (simp only: k_def)
        have eq: "trackEffects e d s =
            s1\<lparr>depStore := (depStore s1)(d := (depStore s1 d)\<lparr>members := set_add e (members (depStore s1 d))\<rparr>),
               effects := (effects s1)(e := (effects s1 e)\<lparr>deps := deps (effects s1 e) @ [d]\<rparr>)\<rparr>"
          using marker nonew nowas
          by (simp add: trackEffects_def Let_def depth tb new was dp_def[symmetric]
                dp1_def[symmetric] s1_def) (simp add: dp1_def)
        show ?thesis
          unfolding eq by (rule consistent_subscribe[OF c1 notin old1 b1])
      qed
    qed
  next
    case full: False
    show ?thesis
    proof (cases "e \<in> set (members dp)")
      case True
      then have "trackEffects e d s = s"
        using full by (simp add: trackEffects_def Let_def depth dp_def[symmetric]) (simp add: dp_def)
      with c show ?thesis by simp
    next
      case False
      then have notin: "d \<notin> set (deps (effects s e))"
        using bidirectionalD[OF D(1), of d e] by (simp add: dp_def)
      have eq: "trackEffects e d s =
            s\<lparr>depStore := (depStore s)(d := (depStore s d)\<lparr>members := set_add e (members (depStore s d))\<rparr>),
               effects := (effects s)(e := (effects s e)\<lparr>deps := deps (effects s e) @ [d]\<rparr>)\<rparr>"
        using full False by (simp add: trackEffects_def Let_def depth dp_def[symmetric])
      show ?thesis
        unfolding eq
        by (rule consistent_subscribe[OF c notin old]) (use full in \<open>simp add: k_def\<close>)
    qed
  qed
qed

lemma consistent_targetMap:
  assumes c: "consistent st s"
    and tm: "\<And>t m k d. tm t = Some m \<Longrightarrow> (k, d) \<in> set m \<Longrightarrow> d < nextDep s"
  shows "consistent st (s\<lparr>targetMap := tm\<rparr>)"
proof (rule consistentI)
  note D = consistentD[OF c]
  let ?s = "s\<lparr>targetMap := tm\<rparr>"
  show "bidirectional ?s" using D(1) by (simp add: bidirectional_def)
  show "distinct (deps (effects ?s x))" for x using D(2)[of x] by simp
  show "is_chain (effects ?s) (activeEffect ?s) st" using D(3) by simp
  show "distinct st" by (rule D(4))
  show "effectTrackDepth ?s = length st" using D(5) by simp
  show "trackOpBit ?s = shl1 (length st)" using D(6) by simp
  show "marked (effects ?s) (depStore ?s) st" using D(7) by simp
  show "members (depStore ?s x) = []" if "nextDep ?s \<le> x" for x
    using D(8)[of x] that by simp
  show "x < nextDep ?s" if "targetMap ?s t = Some m" "(k, x) \<in> set m" for t m k x
    using tm[of t m k x] that by simp
qed

lemma consistent_alloc:
  assumes c: "consistent st s"
    and tm: "\<And>t m k d. tm t = Some m \<Longrightarrow> (k, d) \<in> set m \<Longrightarrow> d < Suc (nextDep s)"
  shows "consistent st
           (s\<lparr>targetMap := tm, depStore := (depStore s)(nextDep s := createDep []),
              nextDep := Suc (nextDep s)\<rparr>)"
    (is "consistent _ ?s")
proof (rule consistentI)
  note D = consistentD[OF c]
  have fresh: "members (depStore s (nextDep s)) = []" using D(8)[of "nextDep s"] by simp
  have m: "members (depStore ?s x) = members (depStore s x)" for x
    using fresh by (simp add: createDep_def)
  have unused: "nextDep s \<notin> set (deps (effects s x))" for x
    using bidirectionalD[OF D(1), of "nextDep s" x] fresh by simp
  show "bidirectional ?s" using D(1) unfolding bidirectional_def by (simp only: m) simp
  show "distinct (deps (effects ?s x))" for x using D(2)[of x] by simp
  show "is_chain (effects ?s) (activeEffect ?s) st" using D(3) by simp
  show "distinct st" by (rule D(4))
  show "effectTrackDepth ?s = length st" using D(5) by simp
  show "trackOpBit ?s = shl1 (length st)" using D(6) by simp
  show "marked (effects ?s) (depStore ?s) st"
  proof (rule marked_mono[OF D(7)])
    show "x \<in> set (deps (effects s y))" if "x \<in> set (deps (effects ?s y))" for x y
      using that by simp
    show "bit (w (depStore ?s x) OR n (depStore ?s x)) j"
      if "x \<in> set (deps (effects ?s y))" "bit (w (depStore s x) OR n (depStore s x)) j" for x y j
    proof -
      from that(1) unused[of y] have "x \<noteq> nextDep s" by auto
      with that(2) show ?thesis by simp
    qed
  qed
  show "members (depStore ?s x) = []" if "nextDep ?s \<le> x" for x
    using D(8)[of x] that by (simp only: m) simp
  show "x < nextDep ?s" if "targetMap ?s t = Some m" "(k, x) \<in> set m" for t m k x
    using tm[of t m k x] that by simp
qed

lemma is_chain_active:
  "is_chain es (Some e) st \<Longrightarrow> \<exists>xs. st = e # xs"
  by (cases st) auto

lemma consistent_track:
  assumes c: "consistent st s"
  shows "consistent st (track t k s)"
proof (cases "activeEffect s")
  case None
  with c show ?thesis by (simp add: track_def)
next
  case (Some e)
  note D = consistentD[OF c]
  from D(3) Some have "is_chain (effects s) (Some e) st" by simp
  from is_chain_active[OF this] obtain xs where st: "st = e # xs" by blast
  show ?thesis
  proof (cases "shouldTrack s")
    case False
    with c Some show ?thesis by (simp add: track_def)
  next
    case True
    define depsMap where "depsMap = (case targetMap s t of None \<Rightarrow> [] | Some m \<Rightarrow> m)"
    have dm: "d < nextDep s" if "(k', d) \<in> set depsMap" for k' d
    proof (cases "targetMap s t")
      case None
      with that show ?thesis by (simp add: depsMap_def)
    next
      case (Some m)
      with that have "(k', d) \<in> set m" by (simp add: depsMap_def)
      with D(9)[OF Some] show ?thesis by blast
    qed
    show ?thesis
    proof (cases "map_of depsMap k")
      case (Some d)
      define s1 where "s1 = s\<lparr>targetMap := (targetMap s)(t \<mapsto> depsMap)\<rparr>"
      have c1: "consistent (e # xs) s1"
        unfolding s1_def st[symmetric]
      proof (rule consistent_targetMap[OF c])
        show "d' < nextDep s" if "((targetMap s)(t \<mapsto> depsMap)) t' = Some m" "(k', d') \<in> set m"
          for t' m k' d'
          using that dm[of k' d'] D(9)[of t' m k' d'] by (cases "t' = t") auto
      qed
      have "(k, d) \<in> set depsMap" using Some by (rule map_of_SomeD)
      then have "d < nextDep s1" using dm by (simp add: s1_def)
      from consistent_trackEffects[OF c1 this]
      show ?thesis
        using \<open>activeEffect s = Some e\<close> True Some
        by (simp add: track_def Let_def depsMap_def[symmetric] s1_def st)
    next
      case None
      define s1 where "s1 = s\<lparr>targetMap := (targetMap s)(t \<mapsto> depsMap @ [(k, nextDep s)]),
                      depStore := (depStore s)(nextDep s := createDep []),
                      nextDep := Suc (nextDep s)\<rparr>"
      have c1: "consistent (e # xs) s1"
        unfolding s1_def st[symmetric]
      proof (rule consistent_alloc[OF c])
        show "d' < Suc (nextDep s)"
          if "((targetMap s)(t \<mapsto> depsMap @ [(k, nextDep s)])) t' = Some m" "(k', d') \<in> set m"
          for t' m k' d'
        proof (cases "t' = t")
          case True
          with that have "(k', d') \<in> set depsMap \<or> d' = nextDep s" by auto
          with dm[of k' d'] show ?thesis by auto
        next
          case False
          with that D(9)[of t' m k' d'] show ?thesis by auto
        qed
      qed
      have "nextDep s < nextDep s1" by (simp add: s1_def)
      from consistent_trackEffects[OF c1 this]
      show ?thesis
        using \<open>activeEffect s = Some e\<close> True None
        by (simp add: track_def Let_def depsMap_def[symmetric] s1_def st)
    qed
  qed
qed

lemma initDepMarkers_fields [simp]:
  "effects (initDepMarkers e s) = effects s"
  "depStore (initDepMarkers e s) d =
     (if d \<in> set (deps (effects s e))
      then (depStore s d)\<lparr>w := w (depStore s d) OR trackOpBit s\<rparr> else depStore s d)"
  "nextDep (initDepMarkers e s) = nextDep s"
  "targetMap (initDepMarkers e s) = targetMap s"
  "activeEffect (initDepMarkers e s) = activeEffect s"
  "effectTrackDepth (initDepMarkers e s) = effectTrackDepth s"
  "trackOpBit (initDepMarkers e s) = trackOpBit s"
  by (simp_all add: initDepMarkers_def initDepMarkers_loop_eq)

lemma run_try_fields:
  "effects (run_try e s) =
     (effects s)(e := (effects s e)\<lparr>parent := activeEffect s, lastShouldTrack := shouldTrack s,
        deps := (if Suc (effectTrackDepth s) \<le> maxMarkerBits then deps (effects s e) else [])\<rparr>)"
  "depStore (run_try e s) d =
     (if d \<in> set (deps (effects s e))
      then (if Suc (effectTrackDepth s) \<le> maxMarkerBits
            then (depStore s d)\<lparr>w := w (depStore s d) OR shl1 (Suc (effectTrackDepth s))\<rparr>
            else (depStore s d)\<lparr>members := set_delete e (members (depStore s d))\<rparr>)
      else depStore s d)"
  "nextDep (run_try e s) = nextDep s"
  "targetMap (run_try e s) = targetMap s"
  "activeEffect (run_try e s) = Some e"
  "effectTrackDepth (run_try e s) = Suc (effectTrackDepth s)"
  "trackOpBit (run_try e s) = shl1 (Suc (effectTrackDepth s))"
  by (auto simp add: run_try_def Let_def fun_eq_iff)

lemma consistent_run_try:
  assumes c: "consistent st s" and notin: "e \<notin> set st"
  shows "consistent (e # st) (run_try e s)"
proof (rule consistentI)
  note D = consistentD[OF c]
  note F = run_try_fields[of e s]
  have depth: "effectTrackDepth s = length st" by (rule D(5))
  show "bidirectional (run_try e s)"
    unfolding bidirectional_def
  proof (intro allI)
    fix e' d
    show "(d \<in> set (deps (effects (run_try e s) e'))) = (e' \<in> set (members (depStore (run_try e s) d)))"
      using bidirectionalD[OF D(1), of d e'] bidirectionalD[OF D(1), of d e]
      by (cases "e' = e") (auto simp: F set_delete_def)
  qed
  show "distinct (deps (effects (run_try e s) x))" for x
    using D(2)[of x] by (cases "x = e") (simp_all add: F)
  have "is_chain (effects (run_try e s)) (activeEffect s) st = is_chain (effects s) (activeEffect s) st"
    by (rule is_chain_cong) (use notin in \<open>auto simp: F\<close>)
  then show "is_chain (effects (run_try e s)) (activeEffect (run_try e s)) (e # st)"
    using D(3) by (simp add: F)
  show "distinct (e # st)" using D(4) notin by simp
  show "effectTrackDepth (run_try e s) = length (e # st)" by (simp add: F depth)
  show "trackOpBit (run_try e s) = shl1 (length (e # st))" by (simp add: F depth)
  have rest: "marked (effects (run_try e s)) (depStore (run_try e s)) st"
  proof (rule marked_mono[OF D(7)])
    show "d \<in> set (deps (effects s x))" if "x \<in> set st" "d \<in> set (deps (effects (run_try e s) x))" for x d
      using that notin by (cases "x = e") (simp_all add: F)
    show "bit (w (depStore (run_try e s) d) OR n (depStore (run_try e s) d)) j"
      if "bit (w (depStore s d) OR n (depStore s d)) j" for d j
      using that by (auto simp: F bit_or_iff)
  qed
  have top: "bit (w (depStore (run_try e s) d) OR n (depStore (run_try e s) d)) (length (e # st))"
    if le: "length (e # st) \<le> maxMarkerBits" and d: "d \<in> set (deps (effects (run_try e s) e))" for d
  proof -
    from le have k30: "Suc (length st) \<le> 30" by (simp add: maxMarkerBits_def)
    from d le have "d \<in> set (deps (effects s e))" by (simp add: F depth)
    then show ?thesis
      using le k30 by (simp add: F depth bit_or_iff bit_shl1)
  qed
  show "marked (effects (run_try e s)) (depStore (run_try e s)) (e # st)"
    using rest top by (simp del: fun_upd_apply)
  show "members (depStore (run_try e s) d) = []" if "nextDep (run_try e s) \<le> d" for d
    using D(8)[of d] that by (simp add: F set_delete_def)
  show "d < nextDep (run_try e s)" if "targetMap (run_try e s) t = Some m" "(k, d) \<in> set m" for t m k d
    using D(9)[of t m k d] that by (simp add: F)
qed

lemma finalizeDepMarkers_fields:
  assumes "distinct (deps (effects s e))"
  shows "effects (finalizeDepMarkers e s) =
      (effects s)(e := (effects s e)\<lparr>deps :=
         filter (\<lambda>d. \<not> (wasTracked (trackOpBit s) (depStore s d) \<and> \<not> newTracked (trackOpBit s) (depStore s d)))
           (deps (effects s e))\<rparr>)"
    and "depStore (finalizeDepMarkers e s) d =
      (if d \<in> set (deps (effects s e)) then finalized (trackOpBit s) e (depStore s d) else depStore s d)"
    and "nextDep (finalizeDepMarkers e s) = nextDep s"
    and "targetMap (finalizeDepMarkers e s) = targetMap s"
    and "activeEffect (finalizeDepMarkers e s) = activeEffect s"
    and "effectTrackDepth (finalizeDepMarkers e s) = effectTrackDepth s"
    and "trackOpBit (finalizeDepMarkers e s) = trackOpBit s"
  by (simp_all add: finalizeDepMarkers_def finalizeDepMarkers_loop_eq[OF assms])

lemma finalized_fields:
  "members (finalized tb e dp) =
     (if wasTracked tb dp \<and> \<not> newTracked tb dp then set_delete e (members dp) else members dp)"
  "w (finalized tb e dp) = w dp AND NOT tb"
  "n (finalized tb e dp) = n dp AND NOT tb"
  by (simp_all add: finalized_def Let_def)

lemma consistent_run_finally:
  assumes c: "consistent (e # st) s"
  shows "consistent st (run_finally e s)"
proof -
  note D = consistentD[OF c]
  define k where "k = length (e # st)"
  define keep where "keep = (\<lambda>d. \<not> (wasTracked (trackOpBit s) (depStore s d)
                                   \<and> \<not> newTracked (trackOpBit s) (depStore s d)))"
  define r where "r = run_finally e s"
  have depth: "effectTrackDepth s = k" and tb: "trackOpBit s = shl1 k"
    using D(5,6) by (simp_all add: k_def)
  have notin: "e \<notin> set st" using D(4) by simp
  note FZ = finalizeDepMarkers_fields[OF D(2)[of e]]
  have Fdeps: "deps (effects r x) =
      (if x = e \<and> k \<le> maxMarkerBits then filter keep (deps (effects s e)) else deps (effects s x))" for x
    by (simp add: r_def run_finally_def Let_def depth FZ keep_def)
  have Fparent: "parent (effects r x) = (if x = e then None else parent (effects s x))" for x
    by (simp add: r_def run_finally_def Let_def depth FZ)
  have Fmem: "members (depStore r d) =
      (if k \<le> maxMarkerBits \<and> d \<in> set (deps (effects s e)) \<and> \<not> keep d
       then set_delete e (members (depStore s d)) else members (depStore s d))" for d
    by (simp add: r_def run_finally_def Let_def depth FZ finalized_fields keep_def)
  have Fbits: "bit (w (depStore r d) OR n (depStore r d)) j"
    if "bit (w (depStore s d) OR n (depStore s d)) j" "j \<noteq> k" for d j
  proof (cases "k \<le> maxMarkerBits")
    case True
    then have k30: "k \<le> 30" by (simp add: maxMarkerBits_def)
    show ?thesis
      using that True
      by (simp add: r_def run_finally_def Let_def depth FZ finalized_fields tb bit_or_iff
            bit_and_not_shl1[OF k30])
  next
    case False
    with that show ?thesis by (simp add: r_def run_finally_def Let_def depth)
  qed
  have Fact: "activeEffect r = parent (effects s e)"
    by (simp add: r_def run_finally_def Let_def depth FZ)
  have Fdepth: "effectTrackDepth r = length st" "trackOpBit r = shl1 (length st)"
    by (simp_all add: r_def run_finally_def Let_def depth FZ k_def)
  have Fother: "nextDep r = nextDep s" "targetMap r = targetMap s"
    by (simp_all add: r_def run_finally_def Let_def depth FZ)
  have "consistent st r"
  proof (rule consistentI)
    show "bidirectional r"
      unfolding bidirectional_def
    proof (intro allI)
      fix e' d
      show "(d \<in> set (deps (effects r e'))) = (e' \<in> set (members (depStore r d)))"
        using bidirectionalD[OF D(1), of d e'] bidirectionalD[OF D(1), of d e]
        by (cases "e' = e") (auto simp: Fdeps Fmem set_delete_def)
    qed
    show "distinct (deps (effects r x))" for x
      using D(2)[of x] D(2)[of e] by (simp add: Fdeps)
    have "is_chain (effects r) (parent (effects s e)) st = is_chain (effects s) (parent (effects s e)) st"
      by (rule is_chain_cong) (use notin in \<open>auto simp: Fparent\<close>)
    then show "is_chain (effects r) (activeEffect r) st" using D(3) by (simp add: Fact)
    show "distinct st" using D(4) by simp
    show "effectTrackDepth r = length st" by (rule Fdepth)
    show "trackOpBit r = shl1 (length st)" by (rule Fdepth)
    show "marked (effects r) (depStore r) st"
    proof (rule marked_mono[where es = "effects s" and ds = "depStore s"])
      show "marked (effects s) (depStore s) st" using D(7) by simp
      show "d \<in> set (deps (effects s x))" if "x \<in> set st" "d \<in> set (deps (effects r x))" for x d
        using that notin by (cases "x = e") (simp_all add: Fdeps)
      show "bit (w (depStore r d) OR n (depStore r d)) j"
        if "j \<le> length st" "bit (w (depStore s d) OR n (depStore s d)) j" for d j
        using Fbits[of d j] that by (simp add: k_def)
    qed
    show "members (depStore r d) = []" if "nextDep r \<le> d" for d
      using D(8)[of d] that by (simp add: Fmem Fother set_delete_def)
    show "d < nextDep r" if "targetMap r t = Some m" "(k', d) \<in> set m" for t m k' d
      using D(9)[of t m k' d] that by (simp add: Fother)
  qed
  then show ?thesis by (simp add: r_def)
qed

lemma consistent_initial: "consistent [] initial_state"
  by (simp add: consistent_def bidirectional_def initial_state_def new_effect_def createDep_def shl1_def)

subsection \<open>Every call keeps the state consistent\<close>

lemma consistent_push:
  assumes "consistent st s" and "on_parent_chain (effects s) (activeEffect s) e = Some False"
  shows "consistent (e # st) (run_try e s)"
proof -
  from on_parent_chain_is_chain[OF consistentD(3)[OF assms(1)], of e] assms(2)
  have "e \<notin> set st" by simp
  with assms(1) show ?thesis by (rule consistent_run_try)
qed

lemmas consistent_steps =
  consistent_track consistent_flags consistent_run_finally consistent_stop_defer
  consistent_cleanupEffect consistent_stop_deactivate

lemma consistent_calls:
  assumes c: "consistent st s"
  shows "exec P k cs s = Some r \<Longrightarrow> consistent st (state_of r)"
    and "call P k cm s = Some r \<Longrightarrow> consistent st (state_of r)"
    and "run P k e s = Some r \<Longrightarrow> consistent st (state_of r)"
    and "stop P k e s = Some r \<Longrightarrow> consistent st (state_of r)"
    and "triggerEffects_loop P k b es s = Some r \<Longrightarrow> consistent st (state_of r)"
    and "triggerEffect P k e s = Some r \<Longrightarrow> consistent st (state_of r)"
proof -
  show "exec P k cs s = Some r \<Longrightarrow> consistent st (state_of r)"
    by (rule preserve(1)[where Q = consistent, OF _ _ _ _ _ _ _ _ _ _ c];
        (assumption | erule consistent_steps | (erule consistent_push, assumption)))
  show "call P k cm s = Some r \<Longrightarrow> consistent st (state_of r)"
    by (rule preserve(2)[where Q = consistent, OF _ _ _ _ _ _ _ _ _ _ c];
        (assumption | erule consistent_steps | (erule consistent_push, assumption)))
  show "run P k e s = Some r \<Longrightarrow> consistent st (state_of r)"
    by (rule preserve(3)[where Q = consistent, OF _ _ _ _ _ _ _ _ _ _ c];
        (assumption | erule consistent_steps | (erule consistent_push, assumption)))
  show "stop P k e s = Some r \<Longrightarrow> consistent st (state_of r)"
    by (rule preserve(4)[where Q = consistent, OF _ _ _ _ _ _ _ _ _ _ c];
        (assumption | erule consistent_steps | (erule consistent_push, assumption)))
  show "triggerEffects_loop P k b es s = Some r \<Longrightarrow> consistent st (state_of r)"
    by (rule preserve(5)[where Q = consistent, OF _ _ _ _ _ _ _ _ _ _ c];
        (assumption | erule consistent_steps | (erule consistent_push, assumption)))
  show "triggerEffect P k e s = Some r \<Longrightarrow> consistent st (state_of r)"
    by (rule preserve(6)[where Q = consistent, OF _ _ _ _ _ _ _ _ _ _ c];
        (assumption | erule consistent_steps | (erule consistent_push, assumption)))
qed

lemma on_parent_chain_code [code]:
  "on_parent_chain es None e = Some False"
  "on_parent_chain es (Some q) e = (if q = e then Some True else on_parent_chain es (parent (es q)) e)"
  by (subst on_parent_chain.simps, simp)+

lemma array_reader_program_returns:
  "(case exec array_reader_program 8
           [Run 0, Trigger (ArrayTarget 0) SET (Some (KStr ''length'')) (Fin 0)] initial_state of
      Some (Done s) \<Rightarrow>
        deps (effects s 0) = [0, 1] \<and> members (depStore s 0) = [0] \<and> members (depStore s 1) = [0]
        \<and> targetMap s (ArrayTarget 0) = Some [(KStr ''findIndex'', 0), (KStr ''length'', 1)]
        \<and> trace s = [FnCalled 0, FnCalled 0]
    | _ \<Rightarrow> False)"
  by code_simp

text \<open>
  C1: in a consistent state (the state of the module after it is loaded is one, and
  every call leads from consistent states to consistent states), after \<open>run()\<close>,
  \<open>stop()\<close>, \<open>trigger\<close>, \<open>track\<close> or any sequence of such calls has returned or
  thrown, whatever the functions of the effects do, a Dep \<open>d\<close> is in the \<open>deps\<close> of an
  effect \<open>e\<close> if and only if \<open>e\<close> is a member of \<open>d\<close>, for every effect and every Dep.
\<close>

theorem C1_bidirectional:
  assumes c: "consistent st s"
  shows "(\<forall>r. exec P k cs s = Some r \<or> run P k e s = Some r \<or> stop P k e s = Some r
              \<or> trigger P k t ty key newValue s = Some r
            \<longrightarrow> consistent st (state_of r)
                \<and> (\<forall>e d. (d \<in> set (deps (effects (state_of r) e)))
                          = (e \<in> set (members (depStore (state_of r) d)))))
         \<and> consistent st (track t' key' s)
         \<and> (\<forall>e d. (d \<in> set (deps (effects (track t' key' s) e)))
                    = (e \<in> set (members (depStore (track t' key' s) d))))"
proof -
  have b: "\<forall>e d. (d \<in> set (deps (effects x e))) = (e \<in> set (members (depStore x d)))"
    if "consistent st x" for x
    using consistentD(1)[OF that] by (simp add: bidirectional_def)
  have "consistent st (state_of r)"
    if "exec P k cs s = Some r \<or> run P k e s = Some r \<or> stop P k e s = Some r
              \<or> trigger P k t ty key newValue s = Some r" for r
    using that consistent_calls(1,2,3,4)[OF c, of P] unfolding trigger_def by blast
  moreover have "consistent st (track t' key' s)" by (rule consistent_track[OF c])
  ultimately show ?thesis using b by blast
qed

theorem C1_bidirectional_witness:
  "\<exists>s. exec array_reader_program 8
           [Run 0, Trigger (ArrayTarget 0) SET (Some (KStr ''length'')) (Fin 0)] initial_state
         = Some (Done s)
       \<and> deps (effects s 0) = [0, 1] \<and> members (depStore s 0) = [0] \<and> members (depStore s 1) = [0]
       \<and> trace s = [FnCalled 0, FnCalled 0]
       \<and> (\<forall>e d. (d \<in> set (deps (effects s e))) = (e \<in> set (members (depStore s d))))"
proof -
  from array_reader_program_returns obtain s where
    r: "exec array_reader_program 8
          [Run 0, Trigger (ArrayTarget 0) SET (Some (KStr ''length'')) (Fin 0)] initial_state
        = Some (Done s)"
    and f: "deps (effects s 0) = [0, 1]" "members (depStore s 0) = [0]" "members (depStore s 1) = [0]"
      "trace s = [FnCalled 0, FnCalled 0]"
    by (auto split: option.splits outcome.splits)
  from C1_bidirectional[OF consistent_initial, of array_reader_program 8
      "[Run 0, Trigger (ArrayTarget 0) SET (Some (KStr ''length'')) (Fin 0)]"] r
  have "\<forall>e d. (d \<in> set (deps (effects (state_of (Done s)) e)))
            = (e \<in> set (members (depStore (state_of (Done s)) d)))"
    by blast
  with r f show ?thesis by simp
qed

subsection \<open>An effect stopped by a nested effect\<close>

text \<open>
  C4 fails on the code. Effect 0 runs effect 1 inside its \<open>fn\<close>, effect 1 calls
  \<open>stop\<close> on effect 0 (which is not \<open>activeEffect\<close> at that moment, so it is cleaned up
  and deactivated at once), and effect 0 then reads a property: it is still on the stack
  and becomes \<open>activeEffect\<close> again when effect 1 returns, so \<open>track\<close> subscribes it.
  After its \<open>run()\<close> has returned, and after one more \<open>stop\<close> (which does nothing, the
  effect being inactive), effect 0 is not active, has one Dep and is a member of it, and a
  trigger of that key calls its \<open>fn\<close>.
\<close>

theorem C4_stopped_effect_is_triggered:
  "(case exec nested_stop_program 8 [Run 0, Stop 0] initial_state of
      Some (Done s) \<Rightarrow>
        \<not> active (effects s 0) \<and> activeEffect s = None
        \<and> deps (effects s 0) = [0] \<and> members (depStore s 0) = [0]
        \<and> targetMap s (OtherTarget 0) = Some [(KStr ''k'', 0)]
        \<and> trace s = [FnCalled 0, FnCalled 1]
        \<and> (case trigger nested_stop_program 8 (OtherTarget 0) SET (Some (KStr ''k'')) NaN s of
              Some (Done s') \<Rightarrow> trace s' = [FnCalled 0, FnCalled 1, FnCalled 0, FnCalled 1]
            | _ \<Rightarrow> False)
    | _ \<Rightarrow> False)"
  by code_simp

end
